theory Spec2Isabelle
  imports Main "HOL-Library.Sublist"
begin

section \<open>The rollback manager of vault/rollback.go\<close>

subsection \<open>Values of the collaborating packages\<close>

text \<open>
  Go error values. The package-level errors of sdk/logical and helper/namespace are
  compared by identity in the source (\<open>err == logical.ErrUnsupportedOperation\<close>), so each
  is a constructor of its own; \<open>NewError s\<close> is any other error value, with \<open>s\<close> its
  \<open>Error()\<close> text (for instance \<open>errors.New(s)\<close>). A nil error is \<open>None\<close> of
  \<open>error option\<close>.
\<close>

datatype error = ErrUnsupportedOperation | ErrReadOnly | ErrNoNamespace | NewError string

record Namespace =
  ns_Path :: string

record MountEntry =
  me_Table :: string
  me_Path :: string
  me_namespace :: Namespace

text \<open>
  What the manager takes from packages whose sources are elsewhere: the two routing
  constants of the mount table, the \<open>Error()\<close> texts of the three package-level errors,
  and the router's \<open>MatchingBackend\<close> (\<open>True\<close> when the backend it returns is not nil).
\<close>

record externals =
  credentialRoutePrefix :: string
  credentialTableType :: string
  ErrUnsupportedOperation_text :: string
  ErrReadOnly_text :: string
  ErrNoNamespace_text :: string
  MatchingBackend :: "Namespace \<Rightarrow> string \<Rightarrow> bool"

fun Error :: "externals \<Rightarrow> error \<Rightarrow> string" where
  "Error x ErrUnsupportedOperation = ErrUnsupportedOperation_text x"
| "Error x ErrReadOnly = ErrReadOnly_text x"
| "Error x ErrNoNamespace = ErrNoNamespace_text x"
| "Error x (NewError s) = s"

text \<open>
  A \<open>context.Context\<close> is represented by what \<open>namespace.FromContext\<close> returns for it:
  the namespace pointer (\<open>None\<close> is nil) and the error.
\<close>

record Context =
  FromContext_ns :: "Namespace option"
  FromContext_err :: "error option"

definition ContextWithNamespace :: "Namespace \<Rightarrow> Context" where
  "ContextWithNamespace ns = \<lparr>FromContext_ns = Some ns, FromContext_err = None\<rparr>"

text \<open>
  Modelled from the spec: \<open>logical.Response\<close> with its methods \<open>IsError\<close> and \<open>Error\<close>
  (sdk/logical is not among the sources). The spec speaks of an error "carried inside a
  response": a response holds the text of its embedded error, if it has one, and a nil
  response is \<open>None\<close> of \<open>Response option\<close>, for which \<open>IsError\<close> is false.
\<close>

record Response =
  embedded_error :: "string option"

definition IsError :: "Response option \<Rightarrow> bool" where
  "IsError resp = (case resp of None \<Rightarrow> False | Some r \<Rightarrow> embedded_error r \<noteq> None)"

definition Response_Error :: "Response option \<Rightarrow> string" where
  "Response_Error resp =
     (case resp of None \<Rightarrow> [] | Some r \<Rightarrow> (case embedded_error r of None \<Rightarrow> [] | Some s \<Rightarrow> s))"

datatype Operation = RollbackOperation

record Request =
  req_Operation :: Operation
  req_Path :: string

text \<open>
  Modelled from the spec: \<open>Namespace.TrimmedPath\<close> (helper/namespace is not among the
  sources). The request is "scoped to the namespace-relative path": the namespace's own
  path is taken off the front of the full path.
\<close>

definition TrimmedPath :: "Namespace \<Rightarrow> string \<Rightarrow> string" where
  "TrimmedPath ns p = (if prefix (ns_Path ns) p then drop (length (ns_Path ns)) p else p)"

text \<open>\<open>strings.Contains\<close> of the Go library: the empty string is contained in every string.\<close>

fun strings_Contains :: "string \<Rightarrow> string \<Rightarrow> bool" where
  "strings_Contains [] substr = (substr = [])"
| "strings_Contains (c # cs) substr = (prefix substr (c # cs) \<or> strings_Contains cs substr)"

subsection \<open>One attempt: \<open>attemptRollback\<close>\<close>

text \<open>
  The goroutine started by \<open>startOrLookupRollback\<close> is a frame (its parameters and local
  variables) with a program counter. Each program point is one access to something
  shared with other goroutines; the lines are those of vault/rollback.go. The named result
  \<open>err\<close> is the variable that lines 199 and 248 assign and that the deferred function
  reads. The deferred \<open>metrics.MeasureSince\<close> of line 188, which runs last, and the timeout
  context of lines 246-252 touch nothing of the manager and are left out; what \<open>Route\<close>
  returns is not constrained.
\<close>

datatype pc =
    AtFromContext       \<comment> \<open>lines 199-216: derive the namespace, build the request\<close>
  | AtLockOrStop        \<comment> \<open>lines 217-234: race the lock grabber against the stop channel\<close>
  | AtSelect            \<comment> \<open>lines 237-242: stopped; was it shutdown?\<close>
  | AtRoute             \<comment> \<open>lines 246-248: the downstream call\<close>
  | AtRUnlock           \<comment> \<open>lines 249-267: release the state lock, interpret the result\<close>
  | AtSetLastError      \<comment> \<open>line 191, first statement of the deferred function\<close>
  | AtRsDone            \<comment> \<open>line 192\<close>
  | AtInflightAllDone   \<comment> \<open>line 193\<close>
  | AtDelete            \<comment> \<open>lines 194-196\<close>
  | AtReturned

fun rank :: "pc \<Rightarrow> nat" where
  "rank AtFromContext = 0"
| "rank AtLockOrStop = 1"
| "rank AtSelect = 2"
| "rank AtRoute = 3"
| "rank AtRUnlock = 4"
| "rank AtSetLastError = 5"
| "rank AtRsDone = 6"
| "rank AtInflightAllDone = 7"
| "rank AtDelete = 8"
| "rank AtReturned = 9"

record attempt =
  a_ctx :: Context
  a_fullPath :: string
  a_rs :: nat                      \<comment> \<open>the pointer to its rollbackState\<close>
  a_grabStatelock :: bool
  a_pc :: pc
  a_err :: "error option"
  a_req :: "Request option"
  a_releaseLock :: bool
  a_resp :: "Response option"

text \<open>
  What an attempt reads from outside itself, each at most once in an execution: whether
  \<open>lockOrStop\<close> reported that it stopped, whether \<open>shutdownCh\<close> was closed at the select
  of line 237, and what \<open>Route\<close> returned.

  Modelled from the spec: the lock grabber (\<open>newLockGrabber\<close>, \<open>grab\<close>, \<open>lockOrStop\<close> are
  not among the sources). Its blocking call "returns as soon as either the lock is
  acquired or the stop signal fires, reporting which of the two occurred": when it
  reports that it did not stop, the read side of the state lock has been acquired for the
  attempt (effect \<open>RLock\<close>); when it reports that it stopped, the attempt holds no lock.
\<close>

record observed =
  lockOrStop_stopped :: bool
  shutdownCh_closed :: bool
  Route_result :: "Response option \<times> error option"

datatype effect =
    LogError string
  | RLock
  | Route Request
  | RUnlock
  | SetLastError "error option"
  | RsDone
  | InflightAllDone
  | InflightDelete string

text \<open>Lines 254-263: the terminal error after the downstream call.\<close>

definition terminal_error :: "externals \<Rightarrow> Response option \<Rightarrow> error option \<Rightarrow> error option" where
  "terminal_error x resp err =
     (let err1 = (if err = Some ErrUnsupportedOperation then None else err) in
      if (case err1 of None \<Rightarrow> False
          | Some e \<Rightarrow> strings_Contains (Error x e) (Error x ErrReadOnly))
         \<or> (IsError resp \<and> strings_Contains (Response_Error resp) (Error x ErrReadOnly))
      then None else err1)"

definition attemptRollback_step :: "externals \<Rightarrow> observed \<Rightarrow> attempt \<Rightarrow> attempt \<times> effect list" where
  "attemptRollback_step x ob t =
     (case a_pc t of
        AtFromContext \<Rightarrow>
          (case FromContext_err (a_ctx t) of
             Some e \<Rightarrow>
               (t\<lparr>a_err := Some e, a_pc := AtSetLastError\<rparr>,
                [LogError ''rollback failed to derive namespace from context''])
           | None \<Rightarrow>
               (case FromContext_ns (a_ctx t) of
                  None \<Rightarrow>
                    (t\<lparr>a_err := Some ErrNoNamespace, a_pc := AtSetLastError\<rparr>,
                     [LogError ''rollback found no namespace''])
                | Some ns \<Rightarrow>
                    (t\<lparr>a_req := Some \<lparr>req_Operation = RollbackOperation,
                                       req_Path = TrimmedPath ns (a_fullPath t)\<rparr>,
                       a_releaseLock := True,
                       a_pc := (if a_grabStatelock t then AtLockOrStop else AtRoute)\<rparr>,
                     [])))
      | AtLockOrStop \<Rightarrow>
          (if lockOrStop_stopped ob then (t\<lparr>a_pc := AtSelect\<rparr>, [])
           else (t\<lparr>a_pc := AtRoute\<rparr>, [RLock]))
      | AtSelect \<Rightarrow>
          (if shutdownCh_closed ob
           then (t\<lparr>a_err := Some (NewError ''rollback shutting down''), a_pc := AtSetLastError\<rparr>, [])
           else (t\<lparr>a_releaseLock := False, a_pc := AtRoute\<rparr>, []))
      | AtRoute \<Rightarrow>
          (t\<lparr>a_resp := fst (Route_result ob), a_err := snd (Route_result ob), a_pc := AtRUnlock\<rparr>,
           (case a_req t of None \<Rightarrow> [] | Some req \<Rightarrow> [Route req]))
      | AtRUnlock \<Rightarrow>
          (let err = terminal_error x (a_resp t) (a_err t) in
           (t\<lparr>a_err := err, a_pc := AtSetLastError\<rparr>,
            (if a_grabStatelock t \<and> a_releaseLock t then [RUnlock] else []) @
            (if err \<noteq> None then [LogError ''error rolling back''] else [])))
      | AtSetLastError \<Rightarrow> (t\<lparr>a_pc := AtRsDone\<rparr>, [SetLastError (a_err t)])
      | AtRsDone \<Rightarrow> (t\<lparr>a_pc := AtInflightAllDone\<rparr>, [RsDone])
      | AtInflightAllDone \<Rightarrow> (t\<lparr>a_pc := AtDelete\<rparr>, [InflightAllDone])
      | AtDelete \<Rightarrow> (t\<lparr>a_pc := AtReturned\<rparr>, [InflightDelete (a_fullPath t)])
      | AtReturned \<Rightarrow> (t, []))"

text \<open>The frame with which \<open>go m.attemptRollback(ctx, fullPath, rs, grabStatelock)\<close> starts.\<close>

definition spawn :: "Context \<Rightarrow> string \<Rightarrow> nat \<Rightarrow> bool \<Rightarrow> attempt" where
  "spawn ctx fullPath rs grabStatelock =
     \<lparr>a_ctx = ctx, a_fullPath = fullPath, a_rs = rs, a_grabStatelock = grabStatelock,
      a_pc = AtFromContext, a_err = None, a_req = None, a_releaseLock = False, a_resp = None\<rparr>"

lemma rank_less_9: "p \<noteq> AtReturned \<Longrightarrow> rank p < 9"
  by (cases p) simp_all

lemma attemptRollback_step_rank:
  "a_pc t \<noteq> AtReturned \<Longrightarrow> rank (a_pc t) < rank (a_pc (fst (attemptRollback_step x ob t)))"
  by (cases "a_pc t") (simp_all add: attemptRollback_step_def Let_def split: option.split)

text \<open>
  A whole execution: the steps of the frame up to its return, with the effects in the
  order in which they happen. There is no loop in \<open>attemptRollback\<close>, so it returns under
  every observation.
\<close>

function attemptRollback_from :: "externals \<Rightarrow> observed \<Rightarrow> attempt \<Rightarrow> attempt \<times> effect list" where
  "attemptRollback_from x ob t =
     (if a_pc t = AtReturned then (t, [])
      else (let r = attemptRollback_from x ob (fst (attemptRollback_step x ob t))
            in (fst r, snd (attemptRollback_step x ob t) @ snd r)))"
  by pat_completeness auto
termination
proof (relation "measure (\<lambda>(x, ob, t). 9 - rank (a_pc t))")
  show "wf (measure (\<lambda>(x, ob, t). 9 - rank (a_pc t)))" by simp
next
  fix x :: externals and ob :: observed and t :: attempt
  assume "a_pc t \<noteq> AtReturned"
  then have "rank (a_pc t) < rank (a_pc (fst (attemptRollback_step x ob t)))"
    and "rank (a_pc t) < 9"
    by (rule attemptRollback_step_rank, rule rank_less_9)
  then show "((x, ob, fst (attemptRollback_step x ob t)), (x, ob, t))
      \<in> measure (\<lambda>(x, ob, t). 9 - rank (a_pc t))"
    by simp
qed

declare attemptRollback_from.simps [simp del]

text \<open>\<open>attemptRollback\<close> as its goroutine runs it, from the call to the return.\<close>

definition attemptRollback ::
  "externals \<Rightarrow> observed \<Rightarrow> Context \<Rightarrow> string \<Rightarrow> nat \<Rightarrow> bool \<Rightarrow> attempt \<times> effect list" where
  "attemptRollback x ob ctx fullPath rs grabStatelock =
     attemptRollback_from x ob (spawn ctx fullPath rs grabStatelock)"


text \<open>The effects on the state lock and on the downstream backend, and those of the deferred function.\<close>

fun lock_or_route :: "effect \<Rightarrow> bool" where
  "lock_or_route RLock = True"
| "lock_or_route RUnlock = True"
| "lock_or_route (Route req) = True"
| "lock_or_route e = False"

fun deferred :: "effect \<Rightarrow> bool" where
  "deferred (SetLastError e) = True"
| "deferred RsDone = True"
| "deferred InflightAllDone = True"
| "deferred (InflightDelete p) = True"
| "deferred e = False"

subsection \<open>The manager and its goroutines\<close>

text \<open>
  \<open>rollbackState\<close>: the embedded \<open>sync.WaitGroup\<close> is its counter, and the context
  \<open>cancelLockGrabCtx\<close> with its cancel function is the flag that says whether
  \<open>cancelLockGrabCtxCancel\<close> has been called.
\<close>

record rollbackState =
  lastError :: "error option"
  wg :: int
  cancelLockGrabCtx_done :: bool

text \<open>The goroutine of \<open>run\<close>: not started, at the select of line 121, inside
  \<open>triggerRollbacks\<close> with the mount entries still to visit, or returned.\<close>

datatype run_pc = RunNotStarted | RunAtSelect | RunInTrigger "MountEntry list" | RunReturned

text \<open>A call of \<open>Stop\<close>: before line 90, at line 92 (holding \<open>shutdownLock\<close>), at line 95,
  at line 97, returned.\<close>

datatype stop_pc = StopAtLock | StopAtCheck | StopAtDoneCh | StopAtWait | StopReturned

text \<open>A call of \<open>Rollback\<close>: at lines 275-282, at line 289, at line 293, at line 296,
  returned, or stopped by the nil dereference of \<open>ns.Path\<close> at line 279.\<close>

datatype rollback_pc = RbAtStartOrLookup | RbAtCancel | RbAtWait | RbAtLastError | RbReturned | RbPanicked

record rollback_call =
  r_ctx :: Context
  r_path :: string
  r_pc :: rollback_pc
  r_rs :: "nat option"
  r_result :: "error option"

text \<open>
  The fields of \<open>RollbackManager\<close> that change (a channel is the flag that says whether
  it has been closed, a mutex whether it is held, \<open>inflightAll\<close> the counter of the
  WaitGroup, \<open>inflight\<close> the map from full paths to pointers), the \<open>rollbackState\<close>
  objects allocated so far (a pointer is an index of \<open>heap\<close>), and the goroutines that
  take part: the attempts, the \<open>run\<close> loop, and the calls of \<open>Stop\<close> and \<open>Rollback\<close> made
  from outside.
\<close>

record system =
  inflightAll :: int
  inflight :: "string \<Rightarrow> nat option"
  doneCh :: bool
  shutdown :: bool
  shutdownCh :: bool
  shutdownLock :: bool
  stopTicker :: bool
  tickerIsStopped :: bool
  heap :: "rollbackState list"
  attempts :: "attempt list"
  run_loop :: run_pc
  stops :: "stop_pc list"
  rollbacks :: "rollback_call list"

text \<open>\<open>NewRollbackManager\<close>: nothing in flight, no channel closed, no goroutine yet.\<close>

definition NewRollbackManager :: system where
  "NewRollbackManager =
     \<lparr>inflightAll = 0, inflight = (\<lambda>p. None), doneCh = False, shutdown = False,
      shutdownCh = False, shutdownLock = False, stopTicker = False, tickerIsStopped = False,
      heap = [], attempts = [], run_loop = RunNotStarted, stops = [], rollbacks = []\<rparr>"

text \<open>
  \<open>startOrLookupRollback\<close>, lines 164-184. The whole body runs under \<open>inflightLock\<close>, and
  it is one step: the new \<open>rollbackState\<close> is allocated at the end of the heap with its
  counter at 1 (\<open>rs.Add(1)\<close>), registered, counted in \<open>inflightAll\<close>, and its goroutine
  started. The result is the pointer returned and the state after the call.
\<close>

definition startOrLookupRollback :: "Context \<Rightarrow> string \<Rightarrow> bool \<Rightarrow> system \<Rightarrow> nat \<times> system" where
  "startOrLookupRollback ctx fullPath grabStatelock s =
     (case inflight s fullPath of
        Some rsInflight \<Rightarrow> (rsInflight, s)
      | None \<Rightarrow>
          (let rs = length (heap s) in
           (rs, s\<lparr>heap := heap s @ [\<lparr>lastError = None, wg = 1, cancelLockGrabCtx_done = False\<rparr>],
                  inflight := (inflight s)(fullPath \<mapsto> rs),
                  inflightAll := inflightAll s + 1,
                  attempts := attempts s @ [spawn ctx fullPath rs grabStatelock]\<rparr>)))"

text \<open>The body of the loop of \<open>triggerRollbacks\<close>, lines 144-158, for one mount entry.\<close>

definition triggerRollbacks_entry :: "externals \<Rightarrow> MountEntry \<Rightarrow> system \<Rightarrow> system" where
  "triggerRollbacks_entry x e s =
     (let path = (if me_Table e = credentialTableType x
                  then credentialRoutePrefix x @ me_Path e else me_Path e);
          ctx = ContextWithNamespace (me_namespace e)
      in if \<not> MatchingBackend x (me_namespace e) path then s
         else snd (startOrLookupRollback ctx (ns_Path (me_namespace e) @ path) True s))"

text \<open>What an effect of an attempt does to the shared state. The state lock and the log
  are not part of the state: \<open>RLock\<close>, \<open>RUnlock\<close>, \<open>Route\<close> and \<open>LogError\<close> leave it as it
  is.\<close>

fun apply_effect :: "nat \<Rightarrow> effect \<Rightarrow> system \<Rightarrow> system" where
  "apply_effect rs (SetLastError e) s = s\<lparr>heap := (heap s)[rs := (heap s ! rs)\<lparr>lastError := e\<rparr>]\<rparr>"
| "apply_effect rs RsDone s = s\<lparr>heap := (heap s)[rs := (heap s ! rs)\<lparr>wg := wg (heap s ! rs) - 1\<rparr>]\<rparr>"
| "apply_effect rs InflightAllDone s = s\<lparr>inflightAll := inflightAll s - 1\<rparr>"
| "apply_effect rs (InflightDelete p) s = s\<lparr>inflight := (inflight s)(p := None)\<rparr>"
| "apply_effect rs e s = s"

text \<open>
  One step of attempt \<open>i\<close> under an observation. The observation must be one that the
  shared state allows: \<open>lockOrStop\<close> reports a stop only when the stop channel can have
  been closed (\<open>shutdownCh\<close> closed or the attempt's lock grab cancelled; the third case of
  the select of line 224, \<open>doneCh\<close>, is closed only when \<open>attemptRollback\<close> returns), and
  the select of line 237 sees \<open>shutdownCh\<close> as it is. That the lock is acquired is possible
  in every state, since the holders of the state lock are not part of the state. A step
  of an attempt that has returned, or whose pointer is not allocated, is not possible.
\<close>

definition attempt_step :: "externals \<Rightarrow> nat \<Rightarrow> observed \<Rightarrow> system \<Rightarrow> system option" where
  "attempt_step x i ob s =
     (if i < length (attempts s) then
        (let t = attempts s ! i in
         if a_pc t = AtReturned \<or> \<not> a_rs t < length (heap s) then None
         else if a_pc t = AtLockOrStop \<and> lockOrStop_stopped ob
                 \<and> \<not> (shutdownCh s \<or> cancelLockGrabCtx_done (heap s ! a_rs t)) then None
         else if a_pc t = AtSelect \<and> shutdownCh_closed ob \<noteq> shutdownCh s then None
         else (case attemptRollback_step x ob t of
                 (t', es) \<Rightarrow> Some (fold (apply_effect (a_rs t)) es (s\<lparr>attempts := (attempts s)[i := t']\<rparr>))))
      else None)"

text \<open>
  One step of call \<open>i\<close> of \<open>Stop\<close>, lines 89-98. \<open>shutdown\<close> is read and written only under
  \<open>shutdownLock\<close>, so the test, the assignment and the close are one step; the deferred
  unlock follows \<open>inflightAll.Wait()\<close> at once. \<open>None\<close> is a call that is blocked.
\<close>

definition Stop_step :: "nat \<Rightarrow> system \<Rightarrow> system option" where
  "Stop_step i s =
     (if i < length (stops s) then
        (case stops s ! i of
           StopAtLock \<Rightarrow>
             (if shutdownLock s then None
              else Some (s\<lparr>shutdownLock := True, stops := (stops s)[i := StopAtCheck]\<rparr>))
         | StopAtCheck \<Rightarrow>
             (if \<not> shutdown s
              then Some (s\<lparr>shutdown := True, shutdownCh := True, stops := (stops s)[i := StopAtDoneCh]\<rparr>)
              else Some (s\<lparr>stops := (stops s)[i := StopAtWait]\<rparr>))
         | StopAtDoneCh \<Rightarrow>
             (if doneCh s then Some (s\<lparr>stops := (stops s)[i := StopAtWait]\<rparr>) else None)
         | StopAtWait \<Rightarrow>
             (if inflightAll s = 0
              then Some (s\<lparr>shutdownLock := False, stops := (stops s)[i := StopReturned]\<rparr>)
              else None)
         | StopReturned \<Rightarrow> None)
      else None)"

text \<open>
  One step of call \<open>i\<close> of \<open>Rollback\<close>, lines 274-297: \<open>FromContext\<close> and
  \<open>startOrLookupRollback\<close> (with \<open>grabStatelock\<close> false), then the cancel function, then
  \<open>rs.Wait()\<close>, which is blocked while the counter is not zero, then the read of
  \<open>rs.lastError\<close>. When \<open>FromContext\<close> returns a nil namespace with a nil error, line 279
  dereferences nil and the call panics.
\<close>

definition Rollback_step :: "nat \<Rightarrow> system \<Rightarrow> system option" where
  "Rollback_step i s =
     (if i < length (rollbacks s) then
        (let r = rollbacks s ! i in
         case r_pc r of
           RbAtStartOrLookup \<Rightarrow>
             (case FromContext_err (r_ctx r) of
                Some e \<Rightarrow>
                  Some (s\<lparr>rollbacks := (rollbacks s)[i := r\<lparr>r_result := Some e, r_pc := RbReturned\<rparr>]\<rparr>)
              | None \<Rightarrow>
                  (case FromContext_ns (r_ctx r) of
                     None \<Rightarrow> Some (s\<lparr>rollbacks := (rollbacks s)[i := r\<lparr>r_pc := RbPanicked\<rparr>]\<rparr>)
                   | Some ns \<Rightarrow>
                       (case startOrLookupRollback (r_ctx r) (ns_Path ns @ r_path r) False s of
                          (rs, s') \<Rightarrow>
                            Some (s'\<lparr>rollbacks := (rollbacks s')[i := r\<lparr>r_rs := Some rs, r_pc := RbAtCancel\<rparr>]\<rparr>))))
         | RbAtCancel \<Rightarrow>
             (case r_rs r of
                None \<Rightarrow> None
              | Some rs \<Rightarrow>
                  (if rs < length (heap s)
                   then Some (s\<lparr>heap := (heap s)[rs := (heap s ! rs)\<lparr>cancelLockGrabCtx_done := True\<rparr>],
                                rollbacks := (rollbacks s)[i := r\<lparr>r_pc := RbAtWait\<rparr>]\<rparr>)
                   else None))
         | RbAtWait \<Rightarrow>
             (case r_rs r of
                None \<Rightarrow> None
              | Some rs \<Rightarrow>
                  (if rs < length (heap s) \<and> wg (heap s ! rs) = 0
                   then Some (s\<lparr>rollbacks := (rollbacks s)[i := r\<lparr>r_pc := RbAtLastError\<rparr>]\<rparr>)
                   else None))
         | RbAtLastError \<Rightarrow>
             (case r_rs r of
                None \<Rightarrow> None
              | Some rs \<Rightarrow>
                  (if rs < length (heap s)
                   then Some (s\<lparr>rollbacks := (rollbacks s)[i := r\<lparr>r_result := lastError (heap s ! rs),
                                                                   r_pc := RbReturned\<rparr>]\<rparr>)
                   else None))
         | RbReturned \<Rightarrow> None
         | RbPanicked \<Rightarrow> None)
      else None)"

text \<open>
  What can happen next: the goroutines are interleaved step by step, and every step sees
  the shared state as the steps before it left it. \<open>Start\<close>, \<open>StopTicker\<close>, \<open>Stop\<close> and
  \<open>Rollback\<close> are called from outside (\<open>Start\<close> once, as \<open>startRollback\<close> does); a tick carries the mount table that \<open>m.backends()\<close> returns at that moment; a
  step of an attempt carries its observation. A tick is possible whenever the loop is at
  its select, also after \<open>tick.Stop()\<close> (a tick may be waiting in the channel) and also
  when \<open>shutdownCh\<close> is closed (a select with several ready cases takes any of them).
\<close>

datatype action =
    CallStart
  | RunTick "MountEntry list"
  | RunTriggerNext
  | RunShutdown
  | RunStopTicker
  | CallStopTicker
  | CallStop
  | StopStep nat
  | CallRollback Context string
  | RollbackStep nat
  | AttemptStep nat observed

fun step :: "externals \<Rightarrow> action \<Rightarrow> system \<Rightarrow> system option" where
  "step x CallStart s =
     (if run_loop s = RunNotStarted then Some (s\<lparr>run_loop := RunAtSelect\<rparr>) else None)"
| "step x (RunTick backends) s =
     (if run_loop s = RunAtSelect then Some (s\<lparr>run_loop := RunInTrigger backends\<rparr>) else None)"
| "step x RunTriggerNext s =
     (case run_loop s of
        RunInTrigger [] \<Rightarrow> Some (s\<lparr>run_loop := RunAtSelect\<rparr>)
      | RunInTrigger (e # es) \<Rightarrow> Some ((triggerRollbacks_entry x e s)\<lparr>run_loop := RunInTrigger es\<rparr>)
      | _ \<Rightarrow> None)"
| "step x RunShutdown s =
     (if run_loop s = RunAtSelect \<and> shutdownCh s
      then Some (s\<lparr>run_loop := RunReturned, doneCh := True\<rparr>) else None)"
| "step x RunStopTicker s =
     (if run_loop s = RunAtSelect \<and> stopTicker s then Some s else None)"
| "step x CallStopTicker s =
     (if \<not> tickerIsStopped s then Some (s\<lparr>stopTicker := True, tickerIsStopped := True\<rparr>)
      else Some s)"
| "step x CallStop s = Some (s\<lparr>stops := stops s @ [StopAtLock]\<rparr>)"
| "step x (StopStep i) s = Stop_step i s"
| "step x (CallRollback ctx path) s =
     Some (s\<lparr>rollbacks := rollbacks s @
        [\<lparr>r_ctx = ctx, r_path = path, r_pc = RbAtStartOrLookup, r_rs = None, r_result = None\<rparr>]\<rparr>)"
| "step x (RollbackStep i) s = Rollback_step i s"
| "step x (AttemptStep i ob) s = attempt_step x i ob s"

text \<open>An execution: the actions taken one after the other from a state.\<close>

fun exec :: "externals \<Rightarrow> action list \<Rightarrow> system \<Rightarrow> system option" where
  "exec x [] s = Some s"
| "exec x (a # as) s = (case step x a s of None \<Rightarrow> None | Some s' \<Rightarrow> exec x as s')"

subsection \<open>Invariants of the executions\<close>

text \<open>An attempt for path \<open>p\<close> that has not yet removed its entry from the registry.\<close>

definition live_for :: "string \<Rightarrow> attempt \<Rightarrow> bool" where
  "live_for p t = (a_fullPath t = p \<and> a_pc t \<noteq> AtReturned)"

text \<open>An attempt that has not yet called \<open>inflightAll.Done()\<close>.\<close>

definition counted :: "attempt \<Rightarrow> bool" where
  "counted t = (rank (a_pc t) \<le> 7)"

text \<open>Attempt \<open>i\<close> owns the \<open>rollbackState\<close> at pointer \<open>i\<close>: the two are created together.\<close>

definition inv_heap :: "system \<Rightarrow> bool" where
  "inv_heap s = (length (heap s) = length (attempts s) \<and>
     (\<forall>i < length (attempts s). a_rs (attempts s ! i) = i))"

text \<open>The registry holds exactly the attempts that have not yet removed their entry, each
  under its own path.\<close>

definition inv_registry :: "system \<Rightarrow> bool" where
  "inv_registry s =
     ((\<forall>p i. inflight s p = Some i \<longrightarrow>
         i < length (attempts s) \<and> a_fullPath (attempts s ! i) = p \<and> a_pc (attempts s ! i) \<noteq> AtReturned) \<and>
      (\<forall>i < length (attempts s). a_pc (attempts s ! i) \<noteq> AtReturned \<longrightarrow>
         inflight s (a_fullPath (attempts s ! i)) = Some i))"

text \<open>The counter of a \<open>rollbackState\<close> is 1 until its attempt has called \<open>rs.Done()\<close> and 0
  from then on, and \<open>lastError\<close> holds the terminal error once line 191 has run.\<close>

definition inv_wg :: "system \<Rightarrow> bool" where
  "inv_wg s =
     (\<forall>i < length (attempts s).
        wg (heap s ! i) = (if rank (a_pc (attempts s ! i)) \<le> 6 then 1 else 0) \<and>
        (5 < rank (a_pc (attempts s ! i)) \<longrightarrow> lastError (heap s ! i) = a_err (attempts s ! i)))"

text \<open>\<open>inflightAll\<close> counts the attempts that have not yet left it.\<close>

definition inv_all :: "system \<Rightarrow> bool" where
  "inv_all s = (inflightAll s = int (length (filter counted (attempts s))))"

text \<open>
  The three kinds of step, seen from the attempts, the heap, the registry and
  \<open>inflightAll\<close>: a step that leaves them as they are (but may cancel a lock grab), a step
  that starts an attempt, and a step of an attempt.
\<close>

definition core_same :: "system \<Rightarrow> system \<Rightarrow> bool" where
  "core_same s s' =
     (attempts s' = attempts s \<and> inflight s' = inflight s \<and> inflightAll s' = inflightAll s \<and>
      length (heap s') = length (heap s) \<and>
      (\<forall>i < length (heap s). lastError (heap s' ! i) = lastError (heap s ! i) \<and>
           wg (heap s' ! i) = wg (heap s ! i) \<and>
           (cancelLockGrabCtx_done (heap s ! i) \<longrightarrow> cancelLockGrabCtx_done (heap s' ! i))))"

definition core_spawn :: "Context \<Rightarrow> string \<Rightarrow> bool \<Rightarrow> system \<Rightarrow> system \<Rightarrow> bool" where
  "core_spawn ctx p g s s' =
     (inflight s p = None \<and>
      attempts s' = attempts s @ [spawn ctx p (length (heap s)) g] \<and>
      heap s' = heap s @ [\<lparr>lastError = None, wg = 1, cancelLockGrabCtx_done = False\<rparr>] \<and>
      inflight s' = (inflight s)(p \<mapsto> length (heap s)) \<and>
      inflightAll s' = inflightAll s + 1)"

definition rest_same :: "system \<Rightarrow> system \<Rightarrow> bool" where
  "rest_same s s' =
     (doneCh s' = doneCh s \<and> shutdown s' = shutdown s \<and> shutdownCh s' = shutdownCh s \<and>
      shutdownLock s' = shutdownLock s \<and> run_loop s' = run_loop s \<and> stops s' = stops s \<and>
      rollbacks s' = rollbacks s)"

definition inv_core :: "system \<Rightarrow> bool" where
  "inv_core s = (inv_heap s \<and> inv_registry s \<and> inv_wg s \<and> inv_all s)"

text \<open>The calls of \<open>Stop\<close> exclude each other by \<open>shutdownLock\<close>; \<open>doneCh\<close> is closed exactly
  when the loop has returned; a call that finds \<open>shutdown\<close> set finds \<open>doneCh\<close> closed.\<close>

fun holds_shutdownLock :: "stop_pc \<Rightarrow> bool" where
  "holds_shutdownLock StopAtCheck = True"
| "holds_shutdownLock StopAtDoneCh = True"
| "holds_shutdownLock StopAtWait = True"
| "holds_shutdownLock p = False"

definition inv_stop :: "system \<Rightarrow> bool" where
  "inv_stop s =
     (shutdownCh s = shutdown s \<and>
      doneCh s = (run_loop s = RunReturned) \<and>
      (\<forall>i < length (stops s). holds_shutdownLock (stops s ! i) \<longrightarrow> shutdownLock s) \<and>
      (\<forall>i < length (stops s). \<forall>j < length (stops s).
         holds_shutdownLock (stops s ! i) \<longrightarrow> holds_shutdownLock (stops s ! j) \<longrightarrow> i = j) \<and>
      (\<forall>i < length (stops s). stops s ! i = StopAtWait \<longrightarrow> doneCh s) \<and>
      (shutdown s \<and> \<not> doneCh s \<longrightarrow> (\<exists>i < length (stops s). stops s ! i = StopAtDoneCh)))"

text \<open>
  Where a call of \<open>Rollback\<close> stands: without a pointer it has not started, or has returned
  the error of \<open>FromContext\<close>, or has panicked; with a pointer, the attempt behind the
  pointer is the one for its path, the lock grab is cancelled once line 289 has run, the
  completion signal has been released once \<open>rs.Wait()\<close> has returned, and the result is
  the terminal error of the attempt.
\<close>

definition call_ok :: "system \<Rightarrow> rollback_call \<Rightarrow> bool" where
  "call_ok s c =
     (case r_rs c of
        None \<Rightarrow>
          r_pc c = RbAtStartOrLookup \<or> r_pc c = RbPanicked \<or>
          (r_pc c = RbReturned \<and> FromContext_err (r_ctx c) \<noteq> None \<and>
           r_result c = FromContext_err (r_ctx c))
      | Some rs \<Rightarrow>
          rs < length (attempts s) \<and>
          FromContext_err (r_ctx c) = None \<and>
          (case FromContext_ns (r_ctx c) of
             None \<Rightarrow> False
           | Some ns \<Rightarrow> a_fullPath (attempts s ! rs) = ns_Path ns @ r_path c) \<and>
          r_pc c \<noteq> RbAtStartOrLookup \<and> r_pc c \<noteq> RbPanicked \<and>
          (r_pc c \<noteq> RbAtCancel \<longrightarrow> cancelLockGrabCtx_done (heap s ! rs)) \<and>
          (r_pc c = RbAtLastError \<or> r_pc c = RbReturned \<longrightarrow> 6 < rank (a_pc (attempts s ! rs))) \<and>
          (r_pc c = RbReturned \<longrightarrow> r_result c = a_err (attempts s ! rs)))"

definition inv_rollbacks :: "system \<Rightarrow> bool" where
  "inv_rollbacks s = (\<forall>c \<in> set (rollbacks s). call_ok s c)"

text \<open>What no step undoes: attempts stay, with their paths; program counters only advance;
  the terminal error stays once recorded; a cancelled lock grab stays cancelled.\<close>

definition core_le :: "system \<Rightarrow> system \<Rightarrow> bool" where
  "core_le s s' =
     (length (attempts s) \<le> length (attempts s') \<and>
      (\<forall>i < length (attempts s).
         a_fullPath (attempts s' ! i) = a_fullPath (attempts s ! i) \<and>
         rank (a_pc (attempts s ! i)) \<le> rank (a_pc (attempts s' ! i)) \<and>
         (5 < rank (a_pc (attempts s ! i)) \<longrightarrow> a_err (attempts s' ! i) = a_err (attempts s ! i)) \<and>
         (cancelLockGrabCtx_done (heap s ! i) \<longrightarrow> cancelLockGrabCtx_done (heap s' ! i))))"

definition invariant :: "system \<Rightarrow> bool" where
  "invariant s = (inv_core s \<and> inv_stop s \<and> inv_rollbacks s)"

subsection \<open>Sample values\<close>

text \<open>Values for the parameters, used where the theorems are applied to concrete inputs.\<close>

definition sample_externals :: externals where
  "sample_externals =
     \<lparr>credentialRoutePrefix = ''auth/'', credentialTableType = ''auth'',
      ErrUnsupportedOperation_text = ''unsupported operation'',
      ErrReadOnly_text = ''cannot write to readonly storage'',
      ErrNoNamespace_text = ''no namespace'',
      MatchingBackend = (\<lambda>ns p. p \<noteq> ''filtered/'')\<rparr>"

definition ns1_ctx :: Context where
  "ns1_ctx = ContextWithNamespace \<lparr>ns_Path = ''ns1/''\<rparr>"

definition no_namespace_ctx :: Context where
  "no_namespace_ctx = \<lparr>FromContext_ns = None, FromContext_err = Some ErrNoNamespace\<rparr>"

text \<open>Sample executions: an observation of an attempt whose downstream call fails, two calls
  of \<open>Rollback\<close> for one path that join the same attempt, that attempt run to its end, a
  credential mount, a call of \<open>Stop\<close> that has closed \<open>shutdownCh\<close> while a sweep is under way,
  and a call of \<open>Stop\<close> that is about to return.\<close>

definition route_failed :: observed where
  "route_failed = \<lparr>lockOrStop_stopped = False, shutdownCh_closed = False,
                    Route_result = (None, Some (NewError ''failed''))\<rparr>"

definition two_callers_joined :: "action list" where
  "two_callers_joined =
     [CallRollback ns1_ctx ''secret/'', CallRollback ns1_ctx ''secret/'',
      RollbackStep 0, RollbackStep 1, RollbackStep 0, RollbackStep 1]"

definition attempt_to_the_end :: "action list" where
  "attempt_to_the_end =
     [AttemptStep 0 route_failed, AttemptStep 0 route_failed, AttemptStep 0 route_failed,
      AttemptStep 0 route_failed, AttemptStep 0 route_failed, AttemptStep 0 route_failed,
      AttemptStep 0 route_failed]"

definition two_callers_returned :: "action list" where
  "two_callers_returned =
     two_callers_joined @ attempt_to_the_end @
     [RollbackStep 0, RollbackStep 0, RollbackStep 1, RollbackStep 1]"

definition sample_mount :: MountEntry where
  "sample_mount = \<lparr>me_Table = ''auth'', me_Path = ''token/'', me_namespace = \<lparr>ns_Path = ''ns1/''\<rparr>\<rparr>"

definition stop_begun :: "action list" where
  "stop_begun = [CallStart, RunTick [sample_mount], CallStop, StopStep 0, StopStep 0]"

definition stop_about_to_return :: "action list" where
  "stop_about_to_return =
     [CallStart, CallRollback ns1_ctx ''secret/'', RollbackStep 0, RollbackStep 0] @
     attempt_to_the_end @
     [RollbackStep 0, RollbackStep 0, CallStop, StopStep 0, StopStep 0, RunShutdown, StopStep 0,
      CallRollback ns1_ctx ''other/'']"

definition sweep_at_entry :: "action list" where
  "sweep_at_entry = [CallStart, RunTick [sample_mount]]"

text \<open>A sweep starts an attempt that waits for the state lock; a call of \<open>Rollback\<close> joins
  it, cancels the lock grab, and returns when the attempt has finished.\<close>

definition stopped_route_failed :: observed where
  "stopped_route_failed = \<lparr>lockOrStop_stopped = True, shutdownCh_closed = False,
                            Route_result = (None, Some (NewError ''failed''))\<rparr>"

definition sweep_attempt_joined :: "action list" where
  "sweep_attempt_joined =
     [CallStart, RunTick [sample_mount], RunTriggerNext, AttemptStep 0 route_failed,
      CallRollback ns1_ctx ''auth/token/'', RollbackStep 0]"

definition sweep_attempt_cancelled :: "action list" where
  "sweep_attempt_cancelled = sweep_attempt_joined @ [RollbackStep 0]"

definition sweep_attempt_returned :: "action list" where
  "sweep_attempt_returned =
     sweep_attempt_cancelled @
     [AttemptStep 0 stopped_route_failed, AttemptStep 0 stopped_route_failed,
      AttemptStep 0 stopped_route_failed, AttemptStep 0 stopped_route_failed,
      AttemptStep 0 stopped_route_failed, AttemptStep 0 stopped_route_failed,
      RollbackStep 0, RollbackStep 0]"

section \<open>Executions of one attempt\<close>

text \<open>The execution from each program point, written out.\<close>

lemma from_returned:
  "a_pc t = AtReturned \<Longrightarrow> attemptRollback_from x ob t = (t, [])"
  by (subst attemptRollback_from.simps) simp

lemma from_delete:
  "a_pc t = AtDelete \<Longrightarrow>
   attemptRollback_from x ob t = (t\<lparr>a_pc := AtReturned\<rparr>, [InflightDelete (a_fullPath t)])"
  by (subst attemptRollback_from.simps) (simp add: attemptRollback_step_def from_returned)

lemma from_inflightAllDone:
  "a_pc t = AtInflightAllDone \<Longrightarrow>
   attemptRollback_from x ob t =
     (t\<lparr>a_pc := AtReturned\<rparr>, [InflightAllDone, InflightDelete (a_fullPath t)])"
  by (subst attemptRollback_from.simps) (simp add: attemptRollback_step_def from_delete)

lemma from_rsDone:
  "a_pc t = AtRsDone \<Longrightarrow>
   attemptRollback_from x ob t =
     (t\<lparr>a_pc := AtReturned\<rparr>, [RsDone, InflightAllDone, InflightDelete (a_fullPath t)])"
  by (subst attemptRollback_from.simps) (simp add: attemptRollback_step_def from_inflightAllDone)

lemma from_defer:
  "a_pc t = AtSetLastError \<Longrightarrow>
   attemptRollback_from x ob t =
     (t\<lparr>a_pc := AtReturned\<rparr>,
      [SetLastError (a_err t), RsDone, InflightAllDone, InflightDelete (a_fullPath t)])"
  by (subst attemptRollback_from.simps) (simp add: attemptRollback_step_def from_rsDone)

lemma from_rUnlock:
  "a_pc t = AtRUnlock \<Longrightarrow>
   attemptRollback_from x ob t =
     (let err = terminal_error x (a_resp t) (a_err t) in
      (t\<lparr>a_err := err, a_pc := AtReturned\<rparr>,
       (if a_grabStatelock t \<and> a_releaseLock t then [RUnlock] else []) @
       (if err \<noteq> None then [LogError ''error rolling back''] else []) @
       [SetLastError err, RsDone, InflightAllDone, InflightDelete (a_fullPath t)]))"
  by (subst attemptRollback_from.simps) (simp add: attemptRollback_step_def from_defer Let_def)

lemma from_route:
  "a_pc t = AtRoute \<Longrightarrow>
   attemptRollback_from x ob t =
     (let err = terminal_error x (fst (Route_result ob)) (snd (Route_result ob)) in
      (t\<lparr>a_resp := fst (Route_result ob), a_err := err, a_pc := AtReturned\<rparr>,
       (case a_req t of None \<Rightarrow> [] | Some req \<Rightarrow> [Route req]) @
       (if a_grabStatelock t \<and> a_releaseLock t then [RUnlock] else []) @
       (if err \<noteq> None then [LogError ''error rolling back''] else []) @
       [SetLastError err, RsDone, InflightAllDone, InflightDelete (a_fullPath t)]))"
  by (subst attemptRollback_from.simps) (simp add: attemptRollback_step_def from_rUnlock Let_def)

lemma from_select:
  "a_pc t = AtSelect \<Longrightarrow>
   attemptRollback_from x ob t =
     (if shutdownCh_closed ob
      then (t\<lparr>a_err := Some (NewError ''rollback shutting down''), a_pc := AtReturned\<rparr>,
            [SetLastError (Some (NewError ''rollback shutting down'')), RsDone, InflightAllDone,
             InflightDelete (a_fullPath t)])
      else attemptRollback_from x ob (t\<lparr>a_releaseLock := False, a_pc := AtRoute\<rparr>))"
  by (subst attemptRollback_from.simps) (simp add: attemptRollback_step_def from_defer)

lemma from_lockOrStop:
  "a_pc t = AtLockOrStop \<Longrightarrow>
   attemptRollback_from x ob t =
     (if lockOrStop_stopped ob then attemptRollback_from x ob (t\<lparr>a_pc := AtSelect\<rparr>)
      else (fst (attemptRollback_from x ob (t\<lparr>a_pc := AtRoute\<rparr>)),
            RLock # snd (attemptRollback_from x ob (t\<lparr>a_pc := AtRoute\<rparr>))))"
  by (subst attemptRollback_from.simps) (simp add: attemptRollback_step_def Let_def)

lemma from_fromContext:
  "a_pc t = AtFromContext \<Longrightarrow>
   attemptRollback_from x ob t =
     (case FromContext_err (a_ctx t) of
        Some e \<Rightarrow>
          (t\<lparr>a_err := Some e, a_pc := AtReturned\<rparr>,
           [LogError ''rollback failed to derive namespace from context'',
            SetLastError (Some e), RsDone, InflightAllDone, InflightDelete (a_fullPath t)])
      | None \<Rightarrow>
          (case FromContext_ns (a_ctx t) of
             None \<Rightarrow>
               (t\<lparr>a_err := Some ErrNoNamespace, a_pc := AtReturned\<rparr>,
                [LogError ''rollback found no namespace'',
                 SetLastError (Some ErrNoNamespace), RsDone, InflightAllDone,
                 InflightDelete (a_fullPath t)])
           | Some ns \<Rightarrow>
               attemptRollback_from x ob
                 (t\<lparr>a_req := Some \<lparr>req_Operation = RollbackOperation,
                                    req_Path = TrimmedPath ns (a_fullPath t)\<rparr>,
                    a_releaseLock := True,
                    a_pc := (if a_grabStatelock t then AtLockOrStop else AtRoute)\<rparr>)))"
  for t :: attempt
  by (subst attemptRollback_from.simps)
     (simp add: attemptRollback_step_def from_defer split: option.split)

lemmas from_simps = from_fromContext from_lockOrStop from_select from_route

lemma terminal_error_cases:
  "terminal_error x resp err =
     (if err = Some ErrUnsupportedOperation
         \<or> (\<exists>e. err = Some e \<and> strings_Contains (Error x e) (Error x ErrReadOnly))
         \<or> (IsError resp \<and> strings_Contains (Response_Error resp) (Error x ErrReadOnly))
      then None else err)"
  by (cases err) (auto simp: terminal_error_def)

lemma attemptRollback_routed:
  assumes "FromContext_err ctx = None" and "FromContext_ns ctx = Some ns"
    and "\<not> (grabStatelock \<and> lockOrStop_stopped ob \<and> shutdownCh_closed ob)"
    and "attemptRollback x ob ctx fullPath rs grabStatelock = (t, es)"
  shows "a_err t = terminal_error x (fst (Route_result ob)) (snd (Route_result ob)) \<and>
         SetLastError (a_err t) \<in> set es"
  using assms
  by (cases grabStatelock; cases "lockOrStop_stopped ob")
     (auto simp: attemptRollback_def spawn_def from_simps Let_def)

lemma attemptRollback_result:
  "attemptRollback x ob ctx fullPath rs grabStatelock = (t, es) \<Longrightarrow>
   a_pc t = AtReturned \<and>
   filter deferred es = [SetLastError (a_err t), RsDone, InflightAllDone, InflightDelete fullPath]"
  by (cases grabStatelock; cases "lockOrStop_stopped ob"; cases "shutdownCh_closed ob")
     (auto simp: attemptRollback_def spawn_def from_simps Let_def split: option.splits)

lemma attemptRollback_deferred:
  "filter deferred (snd (attemptRollback x ob ctx fullPath rs grabStatelock)) =
     [SetLastError (a_err (fst (attemptRollback x ob ctx fullPath rs grabStatelock))),
      RsDone, InflightAllDone, InflightDelete fullPath]"
  using attemptRollback_result [of x ob ctx fullPath rs grabStatelock] by (simp add: prod_eq_iff)

lemma attemptRollback_returns:
  "a_pc (fst (attemptRollback x ob ctx fullPath rs grabStatelock)) = AtReturned"
  using attemptRollback_result [of x ob ctx fullPath rs grabStatelock] by (simp add: prod_eq_iff)

section \<open>Claims about one attempt\<close>

text \<open>
  C3. In every execution of \<open>attemptRollback\<close> with \<open>grabStatelock\<close> true, the read side of
  the state lock is released after the downstream operation if and only if the attempt
  itself acquired it in the lock race; where the lock wait was abandoned because a
  synchronous joiner cancelled it, the attempt goes on without acquiring the lock and never
  releases it. The effects of an execution on the state lock and on the backend are, in
  order: nothing when no namespace can be derived; \<open>RLock\<close>, the downstream call, \<open>RUnlock\<close>
  when the lock was acquired; nothing when the wait stopped under shutdown; the downstream
  call alone when the wait stopped without shutdown.
\<close>

theorem attemptRollback_releases_iff_acquired:
  "filter lock_or_route (snd (attemptRollback x ob ctx fullPath rs True)) =
     (case (FromContext_err ctx, FromContext_ns ctx) of
        (None, Some ns) \<Rightarrow>
          (if \<not> lockOrStop_stopped ob
           then [RLock,
                 Route \<lparr>req_Operation = RollbackOperation, req_Path = TrimmedPath ns fullPath\<rparr>,
                 RUnlock]
           else if shutdownCh_closed ob then []
           else [Route \<lparr>req_Operation = RollbackOperation, req_Path = TrimmedPath ns fullPath\<rparr>])
      | _ \<Rightarrow> [])"
proof -
  obtain t es where run: "attemptRollback x ob ctx fullPath rs True = (t, es)"
    by (cases "attemptRollback x ob ctx fullPath rs True")
  show ?thesis
  proof (cases "FromContext_err ctx = None \<and> FromContext_ns ctx \<noteq> None")
    case False
    with run have "filter lock_or_route es = []"
      by (auto simp: attemptRollback_def spawn_def from_simps split: option.splits)
    with False run show ?thesis by (auto split: option.splits)
  next
    case True
    then obtain ns where ns: "FromContext_err ctx = None" "FromContext_ns ctx = Some ns" by auto
    let ?route = "Route \<lparr>req_Operation = RollbackOperation, req_Path = TrimmedPath ns fullPath\<rparr>"
    consider (acquired) "\<not> lockOrStop_stopped ob"
      | (shutdown) "lockOrStop_stopped ob" "shutdownCh_closed ob"
      | (cancelled) "lockOrStop_stopped ob" "\<not> shutdownCh_closed ob"
      by blast
    then show ?thesis
    proof cases
      case acquired
      with run ns have "filter lock_or_route es = [RLock, ?route, RUnlock]"
        by (auto simp: attemptRollback_def spawn_def from_simps Let_def)
      with acquired ns run show ?thesis by simp
    next
      case shutdown
      with run ns have "filter lock_or_route es = []"
        by (auto simp: attemptRollback_def spawn_def from_simps Let_def)
      with shutdown ns run show ?thesis by simp
    next
      case cancelled
      with run ns have "filter lock_or_route es = [?route]"
        by (auto simp: attemptRollback_def spawn_def from_simps Let_def)
      with cancelled ns run show ?thesis by simp
    qed
  qed
qed

theorem attemptRollback_releases_iff_acquired_witness:
  "filter lock_or_route (snd (attemptRollback sample_externals
       \<lparr>lockOrStop_stopped = False, shutdownCh_closed = False, Route_result = (None, None)\<rparr>
       ns1_ctx ''ns1/secret/'' 0 True)) =
     [RLock, Route \<lparr>req_Operation = RollbackOperation, req_Path = ''secret/''\<rparr>, RUnlock] \<and>
   filter lock_or_route (snd (attemptRollback sample_externals
       \<lparr>lockOrStop_stopped = True, shutdownCh_closed = False, Route_result = (None, None)\<rparr>
       ns1_ctx ''ns1/secret/'' 0 True)) =
     [Route \<lparr>req_Operation = RollbackOperation, req_Path = ''secret/''\<rparr>]"
  using attemptRollback_releases_iff_acquired [of sample_externals
      "\<lparr>lockOrStop_stopped = False, shutdownCh_closed = False, Route_result = (None, None)\<rparr>"
      ns1_ctx "''ns1/secret/''" 0]
    attemptRollback_releases_iff_acquired [of sample_externals
      "\<lparr>lockOrStop_stopped = True, shutdownCh_closed = False, Route_result = (None, None)\<rparr>"
      ns1_ctx "''ns1/secret/''" 0]
  by (simp add: ns1_ctx_def ContextWithNamespace_def TrimmedPath_def)

text \<open>
  C5. After the downstream operation, the terminal error of \<open>attemptRollback\<close> is nil
  whenever the downstream call returned the "unsupported operation" error, or returned an
  error whose text contains the text of the read-only-storage error, or produced a response
  whose embedded error contains that text; any other downstream error is recorded as it
  is. The downstream operation is reached when the namespace can be derived and the lock
  wait did not stop under shutdown.
\<close>

theorem attemptRollback_terminal_error:
  assumes "FromContext_err ctx = None" and "FromContext_ns ctx = Some ns"
    and "\<not> (grabStatelock \<and> lockOrStop_stopped ob \<and> shutdownCh_closed ob)"
    and "Route_result ob = (resp, err)"
  shows "a_err (fst (attemptRollback x ob ctx fullPath rs grabStatelock)) =
     (if err = Some ErrUnsupportedOperation
         \<or> (\<exists>e. err = Some e \<and> strings_Contains (Error x e) (Error x ErrReadOnly))
         \<or> (IsError resp \<and> strings_Contains (Response_Error resp) (Error x ErrReadOnly))
      then None else err) \<and>
   SetLastError (a_err (fst (attemptRollback x ob ctx fullPath rs grabStatelock)))
     \<in> set (snd (attemptRollback x ob ctx fullPath rs grabStatelock))"
proof -
  obtain t es where r: "attemptRollback x ob ctx fullPath rs grabStatelock = (t, es)"
    by (cases "attemptRollback x ob ctx fullPath rs grabStatelock")
  have "a_err t = terminal_error x resp err \<and> SetLastError (a_err t) \<in> set es"
    using attemptRollback_routed [OF assms(1,2,3) r] assms(4) by auto
  then show ?thesis
    unfolding terminal_error_cases [symmetric] r by auto
qed

theorem attemptRollback_terminal_error_witness:
  "a_err (fst (attemptRollback sample_externals
       \<lparr>lockOrStop_stopped = False, shutdownCh_closed = False,
        Route_result = (Some \<lparr>embedded_error = Some ''cannot write to readonly storage''\<rparr>,
                        Some (NewError ''failed''))\<rparr>
       ns1_ctx ''ns1/secret/'' 0 True)) = None \<and>
   a_err (fst (attemptRollback sample_externals
       \<lparr>lockOrStop_stopped = False, shutdownCh_closed = False,
        Route_result = (None, Some (NewError ''failed''))\<rparr>
       ns1_ctx ''ns1/secret/'' 0 False)) = Some (NewError ''failed'')"
  using attemptRollback_terminal_error [of ns1_ctx "\<lparr>ns_Path = ''ns1/''\<rparr>" True
      "\<lparr>lockOrStop_stopped = False, shutdownCh_closed = False,
        Route_result = (Some \<lparr>embedded_error = Some ''cannot write to readonly storage''\<rparr>,
                        Some (NewError ''failed''))\<rparr>"
      "Some \<lparr>embedded_error = Some ''cannot write to readonly storage''\<rparr>"
      "Some (NewError ''failed'')" sample_externals "''ns1/secret/''" 0]
    attemptRollback_terminal_error [of ns1_ctx "\<lparr>ns_Path = ''ns1/''\<rparr>" False
      "\<lparr>lockOrStop_stopped = False, shutdownCh_closed = False,
        Route_result = (None, Some (NewError ''failed''))\<rparr>"
      None "Some (NewError ''failed'')" sample_externals "''ns1/secret/''" 0]
  by (simp add: ns1_ctx_def ContextWithNamespace_def sample_externals_def IsError_def
        Response_Error_def)

text \<open>
  C7. If an attempt with \<open>grabStatelock\<close> true has its lock wait stopped and shutdown has
  been signalled (\<open>shutdownCh\<close> is closed at the select that follows), the attempt ends at
  once with the error "rollback shutting down": the deferred function is all that still
  runs, and the downstream operation is not executed.
\<close>

theorem attemptRollback_shutting_down:
  assumes "FromContext_err ctx = None" and "FromContext_ns ctx = Some ns"
    and "lockOrStop_stopped ob" and "shutdownCh_closed ob"
  shows "a_err (fst (attemptRollback x ob ctx fullPath rs True)) =
           Some (NewError ''rollback shutting down'') \<and>
         snd (attemptRollback x ob ctx fullPath rs True) =
           [SetLastError (Some (NewError ''rollback shutting down'')), RsDone, InflightAllDone,
            InflightDelete fullPath]"
  using assms by (simp add: attemptRollback_def spawn_def from_simps)

theorem attemptRollback_shutting_down_witness:
  "snd (attemptRollback sample_externals
       \<lparr>lockOrStop_stopped = True, shutdownCh_closed = True, Route_result = (None, None)\<rparr>
       ns1_ctx ''ns1/secret/'' 0 True) =
     [SetLastError (Some (NewError ''rollback shutting down'')), RsDone, InflightAllDone,
      InflightDelete ''ns1/secret/'']"
  using attemptRollback_shutting_down [of ns1_ctx "\<lparr>ns_Path = ''ns1/''\<rparr>"
      "\<lparr>lockOrStop_stopped = True, shutdownCh_closed = True, Route_result = (None, None)\<rparr>"
      sample_externals "''ns1/secret/''" 0]
  by (simp add: ns1_ctx_def ContextWithNamespace_def)

text \<open>
  C9. If the namespace cannot be derived from the context of the attempt (\<open>FromContext\<close>
  returns an error, or a nil namespace), \<open>attemptRollback\<close> ends at once with that error
  (\<open>ErrNoNamespace\<close> for the nil namespace) as its terminal result: no request is built,
  and apart from the line in the log its only effects are those of the deferred function,
  so the state lock is not touched and the downstream operation is not invoked.
\<close>

theorem attemptRollback_no_namespace:
  assumes "FromContext_err ctx \<noteq> None \<or> FromContext_ns ctx = None"
  shows "fst (attemptRollback x ob ctx fullPath rs grabStatelock) =
           (spawn ctx fullPath rs grabStatelock)
             \<lparr>a_err := (case FromContext_err ctx of Some e \<Rightarrow> Some e | None \<Rightarrow> Some ErrNoNamespace),
              a_pc := AtReturned\<rparr> \<and>
         a_req (fst (attemptRollback x ob ctx fullPath rs grabStatelock)) = None \<and>
         (\<exists>msg. snd (attemptRollback x ob ctx fullPath rs grabStatelock) =
            [LogError msg,
             SetLastError (case FromContext_err ctx of Some e \<Rightarrow> Some e | None \<Rightarrow> Some ErrNoNamespace),
             RsDone, InflightAllDone, InflightDelete fullPath])"
  using assms by (auto simp: attemptRollback_def spawn_def from_simps split: option.splits)

theorem attemptRollback_no_namespace_witness:
  "snd (attemptRollback sample_externals
       \<lparr>lockOrStop_stopped = False, shutdownCh_closed = False, Route_result = (None, None)\<rparr>
       no_namespace_ctx ''ns1/secret/'' 0 True) =
     [LogError ''rollback failed to derive namespace from context'',
      SetLastError (Some ErrNoNamespace), RsDone, InflightAllDone, InflightDelete ''ns1/secret/'']"
  using attemptRollback_no_namespace [of no_namespace_ctx sample_externals
      "\<lparr>lockOrStop_stopped = False, shutdownCh_closed = False, Route_result = (None, None)\<rparr>"
      "''ns1/secret/''" 0 True]
  by (simp add: no_namespace_ctx_def attemptRollback_def spawn_def from_simps)

section \<open>Executions of the manager\<close>

text \<open>What one step of a frame changes.\<close>

lemma step_frame:
  "a_fullPath (fst (attemptRollback_step x ob t)) = a_fullPath t"
  "a_rs (fst (attemptRollback_step x ob t)) = a_rs t"
  "a_ctx (fst (attemptRollback_step x ob t)) = a_ctx t"
  "a_grabStatelock (fst (attemptRollback_step x ob t)) = a_grabStatelock t"
  by (cases "a_pc t"; simp add: attemptRollback_step_def Let_def split: option.split)+

lemma step_rank_early:
  "rank (a_pc t) < 5 \<Longrightarrow> rank (a_pc (fst (attemptRollback_step x ob t))) \<le> 5"
  by (cases "a_pc t") (simp_all add: attemptRollback_step_def Let_def split: option.split)

lemma step_rank_late:
  "5 \<le> rank (a_pc t) \<Longrightarrow> a_pc t \<noteq> AtReturned \<Longrightarrow>
   rank (a_pc (fst (attemptRollback_step x ob t))) = Suc (rank (a_pc t)) \<and>
   a_err (fst (attemptRollback_step x ob t)) = a_err t"
  by (cases "a_pc t") (simp_all add: attemptRollback_step_def Let_def split: option.split)

lemma step_effects_early:
  "rank (a_pc t) < 5 \<Longrightarrow> \<forall>e \<in> set (snd (attemptRollback_step x ob t)). \<not> deferred e"
  by (cases "a_pc t") (auto simp: attemptRollback_step_def Let_def split: option.split)

lemma fold_not_deferred:
  "\<forall>e \<in> set es. \<not> deferred e \<Longrightarrow> fold (apply_effect rs) es s = s"
proof (induction es)
  case Nil then show ?case by simp
next
  case (Cons e es)
  then have "apply_effect rs e s = s" by (cases e) simp_all
  with Cons show ?case by simp
qed

lemma attempt_stepD:
  assumes "attempt_step x i ob s = Some s'"
  shows "i < length (attempts s)"
    and "a_pc (attempts s ! i) \<noteq> AtReturned"
    and "a_rs (attempts s ! i) < length (heap s)"
    and "s' = (case a_pc (attempts s ! i) of
             AtSetLastError \<Rightarrow>
               s\<lparr>attempts := (attempts s)[i := fst (attemptRollback_step x ob (attempts s ! i))],
                 heap := (heap s)[a_rs (attempts s ! i) :=
                   (heap s ! a_rs (attempts s ! i))\<lparr>lastError := a_err (attempts s ! i)\<rparr>]\<rparr>
           | AtRsDone \<Rightarrow>
               s\<lparr>attempts := (attempts s)[i := fst (attemptRollback_step x ob (attempts s ! i))],
                 heap := (heap s)[a_rs (attempts s ! i) :=
                   (heap s ! a_rs (attempts s ! i))\<lparr>wg := wg (heap s ! a_rs (attempts s ! i)) - 1\<rparr>]\<rparr>
           | AtInflightAllDone \<Rightarrow>
               s\<lparr>attempts := (attempts s)[i := fst (attemptRollback_step x ob (attempts s ! i))],
                 inflightAll := inflightAll s - 1\<rparr>
           | AtDelete \<Rightarrow>
               s\<lparr>attempts := (attempts s)[i := fst (attemptRollback_step x ob (attempts s ! i))],
                 inflight := (inflight s)(a_fullPath (attempts s ! i) := None)\<rparr>
           | _ \<Rightarrow> s\<lparr>attempts := (attempts s)[i := fst (attemptRollback_step x ob (attempts s ! i))]\<rparr>)"
proof -
  let ?t = "attempts s ! i"
  from assms show 1: "i < length (attempts s)"
    by (simp add: attempt_step_def split: if_splits)
  from assms 1 show 2: "a_pc ?t \<noteq> AtReturned"
    by (auto simp add: attempt_step_def Let_def split: if_splits)
  from assms 1 show 3: "a_rs ?t < length (heap s)"
    by (auto simp add: attempt_step_def Let_def split: if_splits)
  from assms 1 2 3 have s': "s' = fold (apply_effect (a_rs ?t)) (snd (attemptRollback_step x ob ?t))
       (s\<lparr>attempts := (attempts s)[i := fst (attemptRollback_step x ob ?t)]\<rparr>)"
    by (auto simp add: attempt_step_def Let_def split: if_splits prod.splits)
  show "s' = (case a_pc (attempts s ! i) of
             AtSetLastError \<Rightarrow>
               s\<lparr>attempts := (attempts s)[i := fst (attemptRollback_step x ob (attempts s ! i))],
                 heap := (heap s)[a_rs (attempts s ! i) :=
                   (heap s ! a_rs (attempts s ! i))\<lparr>lastError := a_err (attempts s ! i)\<rparr>]\<rparr>
           | AtRsDone \<Rightarrow>
               s\<lparr>attempts := (attempts s)[i := fst (attemptRollback_step x ob (attempts s ! i))],
                 heap := (heap s)[a_rs (attempts s ! i) :=
                   (heap s ! a_rs (attempts s ! i))\<lparr>wg := wg (heap s ! a_rs (attempts s ! i)) - 1\<rparr>]\<rparr>
           | AtInflightAllDone \<Rightarrow>
               s\<lparr>attempts := (attempts s)[i := fst (attemptRollback_step x ob (attempts s ! i))],
                 inflightAll := inflightAll s - 1\<rparr>
           | AtDelete \<Rightarrow>
               s\<lparr>attempts := (attempts s)[i := fst (attemptRollback_step x ob (attempts s ! i))],
                 inflight := (inflight s)(a_fullPath (attempts s ! i) := None)\<rparr>
           | _ \<Rightarrow> s\<lparr>attempts := (attempts s)[i := fst (attemptRollback_step x ob (attempts s ! i))]\<rparr>)"
  proof (cases "rank (a_pc ?t) < 5")
    case True
    then have "s' = s\<lparr>attempts := (attempts s)[i := fst (attemptRollback_step x ob ?t)]\<rparr>"
      using s' fold_not_deferred [OF step_effects_early [OF True]] by simp
    with True show ?thesis by (cases "a_pc ?t") simp_all
  next
    case False
    with 2 show ?thesis
      by (cases "a_pc ?t") (simp_all add: s' attemptRollback_step_def)
  qed
qed

lemma length_filter_update:
  "i < length xs \<Longrightarrow>
   length (filter P (xs[i := y])) + (if P (xs ! i) then 1 else 0) =
   length (filter P xs) + (if P y then 1 else 0)"
proof (induction xs arbitrary: i)
  case Nil then show ?case by simp
next
  case (Cons a xs)
  show ?case
  proof (cases i)
    case 0 then show ?thesis by simp
  next
    case (Suc j)
    with Cons.prems have "j < length xs" by simp
    from Cons.IH [OF this] Suc show ?thesis by simp
  qed
qed

subsection \<open>Steps that leave the attempts alone\<close>

lemma inv_heap_same: "core_same s s' \<Longrightarrow> inv_heap s \<Longrightarrow> inv_heap s'"
  by (simp add: core_same_def inv_heap_def)

lemma inv_registry_same: "core_same s s' \<Longrightarrow> inv_registry s \<Longrightarrow> inv_registry s'"
  by (simp add: core_same_def inv_registry_def)

lemma inv_wg_same: "core_same s s' \<Longrightarrow> inv_heap s \<Longrightarrow> inv_wg s \<Longrightarrow> inv_wg s'"
  by (simp add: core_same_def inv_wg_def inv_heap_def)

lemma inv_all_same: "core_same s s' \<Longrightarrow> inv_all s \<Longrightarrow> inv_all s'"
  by (simp add: core_same_def inv_all_def)

subsection \<open>Steps that start an attempt\<close>

lemma inv_heap_spawn: "core_spawn ctx p g s s' \<Longrightarrow> inv_heap s \<Longrightarrow> inv_heap s'"
  by (auto simp: core_spawn_def inv_heap_def nth_append spawn_def)

lemma inv_registry_spawn:
  assumes "core_spawn ctx p g s s'" and "inv_heap s" and "inv_registry s"
  shows "inv_registry s'"
proof -
  from assms(1) have at: "attempts s' = attempts s @ [spawn ctx p (length (heap s)) g]"
    and inf: "inflight s' = (inflight s)(p \<mapsto> length (heap s))"
    and none: "inflight s p = None"
    by (simp_all add: core_spawn_def)
  from assms(2) have len: "length (heap s) = length (attempts s)" by (simp add: inv_heap_def)
  show ?thesis
    unfolding inv_registry_def
  proof (rule conjI; intro allI impI)
    fix q i assume "inflight s' q = Some i"
    then have "(q = p \<and> i = length (attempts s)) \<or> (q \<noteq> p \<and> inflight s q = Some i)"
      by (auto simp: inf len split: if_splits)
    then show "i < length (attempts s') \<and> a_fullPath (attempts s' ! i) = q \<and> a_pc (attempts s' ! i) \<noteq> AtReturned"
      using assms(3) by (auto simp: at nth_append inv_registry_def spawn_def)
  next
    fix i assume i: "i < length (attempts s')" and live: "a_pc (attempts s' ! i) \<noteq> AtReturned"
    show "inflight s' (a_fullPath (attempts s' ! i)) = Some i"
    proof (cases "i < length (attempts s)")
      case True
      with live have "inflight s (a_fullPath (attempts s ! i)) = Some i"
        using assms(3) by (simp add: at nth_append inv_registry_def)
      with none have "a_fullPath (attempts s ! i) \<noteq> p" by auto
      with True \<open>inflight s (a_fullPath (attempts s ! i)) = Some i\<close> show ?thesis
        by (simp add: at inf nth_append)
    next
      case False
      with i have "i = length (attempts s)" by (simp add: at)
      then show ?thesis by (simp add: at inf len spawn_def)
    qed
  qed
qed

lemma inv_wg_spawn:
  "core_spawn ctx p g s s' \<Longrightarrow> inv_heap s \<Longrightarrow> inv_wg s \<Longrightarrow> inv_wg s'"
  by (auto simp: core_spawn_def inv_heap_def inv_wg_def nth_append spawn_def)

lemma inv_all_spawn: "core_spawn ctx p g s s' \<Longrightarrow> inv_all s \<Longrightarrow> inv_all s'"
  by (simp add: core_spawn_def inv_all_def counted_def spawn_def)

subsection \<open>Steps of an attempt\<close>

lemma attempt_step_attempts:
  "attempt_step x i ob s = Some s' \<Longrightarrow>
   attempts s' = (attempts s)[i := fst (attemptRollback_step x ob (attempts s ! i))]"
  using attempt_stepD(4) [of x i ob s s'] by (cases "a_pc (attempts s ! i)") simp_all

lemma attempt_step_heap:
  "attempt_step x i ob s = Some s' \<Longrightarrow>
   heap s' =
     (if a_pc (attempts s ! i) = AtSetLastError
      then (heap s)[a_rs (attempts s ! i) :=
             (heap s ! a_rs (attempts s ! i))\<lparr>lastError := a_err (attempts s ! i)\<rparr>]
      else if a_pc (attempts s ! i) = AtRsDone
      then (heap s)[a_rs (attempts s ! i) :=
             (heap s ! a_rs (attempts s ! i))\<lparr>wg := wg (heap s ! a_rs (attempts s ! i)) - 1\<rparr>]
      else heap s)"
  using attempt_stepD(4) [of x i ob s s'] by (cases "a_pc (attempts s ! i)") simp_all

lemma attempt_step_inflightAll:
  "attempt_step x i ob s = Some s' \<Longrightarrow>
   inflightAll s' =
     (if a_pc (attempts s ! i) = AtInflightAllDone then inflightAll s - 1 else inflightAll s)"
  using attempt_stepD(4) [of x i ob s s'] by (cases "a_pc (attempts s ! i)") simp_all

lemma attempt_step_inflight:
  "attempt_step x i ob s = Some s' \<Longrightarrow>
   inflight s' =
     (if a_pc (attempts s ! i) = AtDelete
      then (inflight s)(a_fullPath (attempts s ! i) := None) else inflight s)"
  using attempt_stepD(4) [of x i ob s s'] by (cases "a_pc (attempts s ! i)") simp_all

lemma attempt_step_others:
  assumes "attempt_step x i ob s = Some s'"
  shows "doneCh s' = doneCh s" "shutdown s' = shutdown s" "shutdownCh s' = shutdownCh s"
    "shutdownLock s' = shutdownLock s" "run_loop s' = run_loop s" "stops s' = stops s"
    "rollbacks s' = rollbacks s" "stopTicker s' = stopTicker s"
    "tickerIsStopped s' = tickerIsStopped s"
  using attempt_stepD(4) [OF assms] by (cases "a_pc (attempts s ! i)"; simp)+

lemma step_returned_iff:
  "a_pc t \<noteq> AtReturned \<Longrightarrow>
   (a_pc (fst (attemptRollback_step x ob t)) = AtReturned) = (a_pc t = AtDelete)"
  by (cases "a_pc t") (simp_all add: attemptRollback_step_def Let_def split: option.split)

lemma step_counted_iff:
  "a_pc t \<noteq> AtReturned \<Longrightarrow>
   counted (fst (attemptRollback_step x ob t)) = (counted t \<and> a_pc t \<noteq> AtInflightAllDone)"
  by (cases "a_pc t") (simp_all add: attemptRollback_step_def Let_def counted_def split: option.split)

lemma inv_heap_attempt:
  assumes "attempt_step x i ob s = Some s'" and "inv_heap s"
  shows "inv_heap s'"
  using assms(2) attempt_stepD(1) [OF assms(1)]
  by (auto simp: inv_heap_def attempt_step_attempts [OF assms(1)] attempt_step_heap [OF assms(1)]
        nth_list_update step_frame)

lemma inv_registry_attempt:
  assumes st: "attempt_step x i ob s = Some s'" and "inv_heap s" and reg: "inv_registry s"
  shows "inv_registry s'"
proof -
  let ?t = "attempts s ! i"
  let ?t' = "fst (attemptRollback_step x ob ?t)"
  note i = attempt_stepD(1) [OF st] and live = attempt_stepD(2) [OF st]
  note at = attempt_step_attempts [OF st] and inf = attempt_step_inflight [OF st]
  from reg i live have own: "inflight s (a_fullPath ?t) = Some i"
    by (simp add: inv_registry_def)
  show ?thesis
    unfolding inv_registry_def
  proof (rule conjI; intro allI impI)
    fix p j assume "inflight s' p = Some j"
    then have old: "inflight s p = Some j" and del: "a_pc ?t = AtDelete \<longrightarrow> p \<noteq> a_fullPath ?t"
      by (auto simp: inf split: if_splits)
    from reg old have j: "j < length (attempts s)" "a_fullPath (attempts s ! j) = p"
      "a_pc (attempts s ! j) \<noteq> AtReturned"
      by (simp_all add: inv_registry_def)
    show "j < length (attempts s') \<and> a_fullPath (attempts s' ! j) = p \<and> a_pc (attempts s' ! j) \<noteq> AtReturned"
    proof (cases "j = i")
      case True
      with j del have "a_pc ?t \<noteq> AtDelete" by auto
      with live have "a_pc ?t' \<noteq> AtReturned" by (simp add: step_returned_iff)
      with True j i show ?thesis by (simp add: at step_frame)
    next
      case False
      with j show ?thesis by (simp add: at)
    qed
  next
    fix j assume j: "j < length (attempts s')" and lj: "a_pc (attempts s' ! j) \<noteq> AtReturned"
    show "inflight s' (a_fullPath (attempts s' ! j)) = Some j"
    proof (cases "j = i")
      case True
      with lj i have "a_pc ?t' \<noteq> AtReturned" by (simp add: at)
      with live have "a_pc ?t \<noteq> AtDelete" by (simp add: step_returned_iff)
      with True i own show ?thesis by (simp add: at inf step_frame)
    next
      case False
      with j lj have old: "inflight s (a_fullPath (attempts s ! j)) = Some j"
        using reg by (simp add: at inv_registry_def)
      with own False have "a_fullPath (attempts s ! j) \<noteq> a_fullPath ?t" by auto
      with False old show ?thesis by (simp add: at inf)
    qed
  qed
qed

lemma inv_wg_attempt:
  assumes st: "attempt_step x i ob s = Some s'" and hp: "inv_heap s" and wg: "inv_wg s"
  shows "inv_wg s'"
proof -
  let ?t = "attempts s ! i"
  let ?t' = "fst (attemptRollback_step x ob ?t)"
  note i = attempt_stepD(1) [OF st] and live = attempt_stepD(2) [OF st]
  note at = attempt_step_attempts [OF st] and hs = attempt_step_heap [OF st]
  from hp i have rs: "a_rs ?t = i" and len: "length (heap s) = length (attempts s)"
    by (simp_all add: inv_heap_def)
  from wg i have old: "wg (heap s ! i) = (if rank (a_pc ?t) \<le> 6 then 1 else 0)"
    "5 < rank (a_pc ?t) \<longrightarrow> lastError (heap s ! i) = a_err ?t"
    by (simp_all add: inv_wg_def)
  show ?thesis
    unfolding inv_wg_def
  proof (intro allI impI)
    fix j assume j: "j < length (attempts s')"
    show "wg (heap s' ! j) = (if rank (a_pc (attempts s' ! j)) \<le> 6 then 1 else 0) \<and>
        (5 < rank (a_pc (attempts s' ! j)) \<longrightarrow> lastError (heap s' ! j) = a_err (attempts s' ! j))"
    proof (cases "j = i")
      case False
      with j wg show ?thesis by (simp add: at hs rs inv_wg_def)
    next
      case True
      show ?thesis
      proof (cases "rank (a_pc ?t) < 5")
        case early: True
        then have "rank (a_pc ?t') \<le> 5" by (rule step_rank_early)
        moreover from early have "a_pc ?t \<noteq> AtSetLastError" "a_pc ?t \<noteq> AtRsDone" by auto
        ultimately show ?thesis using True i old early by (simp add: at hs)
      next
        case late: False
        then have r: "rank (a_pc ?t') = Suc (rank (a_pc ?t))" "a_err ?t' = a_err ?t"
          using step_rank_late [of ?t x ob] live by simp_all
        from late live show ?thesis
          using True i old r len by (cases "a_pc ?t") (simp_all add: at hs rs)
      qed
    qed
  qed
qed

lemma inv_all_attempt:
  assumes st: "attempt_step x i ob s = Some s'" and al: "inv_all s"
  shows "inv_all s'"
proof -
  let ?t = "attempts s ! i"
  let ?t' = "fst (attemptRollback_step x ob ?t)"
  note i = attempt_stepD(1) [OF st] and live = attempt_stepD(2) [OF st]
  note at = attempt_step_attempts [OF st] and ia = attempt_step_inflightAll [OF st]
  have c: "counted ?t' = (counted ?t \<and> a_pc ?t \<noteq> AtInflightAllDone)"
    using live by (rule step_counted_iff)
  have d: "a_pc ?t = AtInflightAllDone \<Longrightarrow> counted ?t" by (simp add: counted_def)
  from length_filter_update [OF i, of counted ?t'] c d al show ?thesis
    by (auto simp: inv_all_def at ia split: if_splits)
qed

subsection \<open>Every step is of one of the three kinds\<close>

lemma startOrLookupRollbackD:
  assumes "startOrLookupRollback ctx p g s = (rs, s')"
  shows "(inflight s p = Some rs \<and> s' = s) \<or>
         (core_spawn ctx p g s s' \<and> rs = length (heap s) \<and> rest_same s s')"
  using assms
  by (auto simp: startOrLookupRollback_def core_spawn_def rest_same_def Let_def split: option.splits)

lemma triggerRollbacks_entryD:
  "triggerRollbacks_entry x e s = s' \<Longrightarrow>
   s' = s \<or> (\<exists>ctx p. core_spawn ctx p True s s' \<and> rest_same s s')"
  unfolding triggerRollbacks_entry_def Let_def
  using startOrLookupRollbackD [of _ _ True s]
  by (metis prod.collapse)

lemma core_spawn_run_loop: "core_spawn ctx p g s s1 \<Longrightarrow> core_spawn ctx p g s (s1\<lparr>run_loop := v\<rparr>)"
  by (simp add: core_spawn_def)

lemma core_spawn_rollbacks: "core_spawn ctx p g s s1 \<Longrightarrow> core_spawn ctx p g s (s1\<lparr>rollbacks := v\<rparr>)"
  by (simp add: core_spawn_def)

lemma core_same_run_loop: "core_same s (s\<lparr>run_loop := v\<rparr>)"
  by (simp add: core_same_def)

lemma core_same_rollbacks: "core_same s (s\<lparr>rollbacks := v\<rparr>)"
  by (simp add: core_same_def)

lemma Stop_step_core: "Stop_step i s = Some s' \<Longrightarrow> core_same s s'"
  by (auto simp: Stop_step_def core_same_def split: if_splits stop_pc.splits)

lemma Rollback_step_core:
  assumes "Rollback_step i s = Some s'"
  shows "core_same s s' \<or> (\<exists>ctx p g. core_spawn ctx p g s s')"
proof (cases "r_pc (rollbacks s ! i)")
  case RbAtStartOrLookup
  show ?thesis
  proof (cases "FromContext_err (r_ctx (rollbacks s ! i)) = None \<and> FromContext_ns (r_ctx (rollbacks s ! i)) \<noteq> None")
    case False
    with assms RbAtStartOrLookup have "core_same s s'"
      by (auto simp: Rollback_step_def Let_def core_same_def split: if_splits option.splits)
    then show ?thesis ..
  next
    case True
    then obtain ns where ns: "FromContext_err (r_ctx (rollbacks s ! i)) = None"
      "FromContext_ns (r_ctx (rollbacks s ! i)) = Some ns" by auto
    obtain rs s1 where so: "startOrLookupRollback (r_ctx (rollbacks s ! i)) (ns_Path ns @ r_path (rollbacks s ! i)) False s = (rs, s1)"
      by (cases "startOrLookupRollback (r_ctx (rollbacks s ! i)) (ns_Path ns @ r_path (rollbacks s ! i)) False s")
    with assms RbAtStartOrLookup ns
    have s': "s' = s1\<lparr>rollbacks := (rollbacks s1)[i := (rollbacks s ! i)\<lparr>r_rs := Some rs, r_pc := RbAtCancel\<rparr>]\<rparr>"
      by (auto simp: Rollback_step_def Let_def split: if_splits)
    from startOrLookupRollbackD [OF so] show ?thesis
      unfolding s' using core_same_rollbacks core_spawn_rollbacks by blast
  qed
qed (use assms in \<open>auto simp: Rollback_step_def Let_def core_same_def nth_list_update
       split: if_splits option.splits\<close>)

lemma step_core:
  assumes "step x a s = Some s'"
  shows "core_same s s' \<or> (\<exists>ctx p g. core_spawn ctx p g s s') \<or>
         (\<exists>i ob. attempt_step x i ob s = Some s')"
proof (cases a)
  case RunTriggerNext
  show ?thesis
  proof (cases "run_loop s")
    case (RunInTrigger es)
    show ?thesis
    proof (cases es)
      case Nil
      with assms RunTriggerNext RunInTrigger show ?thesis by (auto simp: core_same_def)
    next
      case (Cons e es')
      with assms RunTriggerNext RunInTrigger
      have s': "s' = (triggerRollbacks_entry x e s)\<lparr>run_loop := RunInTrigger es'\<rparr>" by auto
      from triggerRollbacks_entryD [OF refl, of x e s] show ?thesis
        unfolding s' using core_same_run_loop core_spawn_run_loop by metis
    qed
  qed (use assms RunTriggerNext in auto)
next
  case (StopStep i)
  with assms have "Stop_step i s = Some s'" by simp
  then show ?thesis by (blast dest: Stop_step_core)
next
  case (RollbackStep i)
  with assms have "Rollback_step i s = Some s'" by simp
  then show ?thesis by (blast dest: Rollback_step_core)
next
  case (AttemptStep i ob)
  with assms show ?thesis by auto
qed (use assms in \<open>auto simp: core_same_def split: if_splits\<close>)

lemma inv_core_init: "inv_core NewRollbackManager"
  by (simp add: inv_core_def inv_heap_def inv_registry_def inv_wg_def inv_all_def NewRollbackManager_def)

lemma inv_core_step:
  assumes "step x a s = Some s'" and "inv_core s"
  shows "inv_core s'"
  using step_core [OF assms(1)] assms(2)
  unfolding inv_core_def
  by (elim disjE exE conjE)
     (blast intro: inv_heap_same inv_registry_same inv_wg_same inv_all_same
        inv_heap_spawn inv_registry_spawn inv_wg_spawn inv_all_spawn
        inv_heap_attempt inv_registry_attempt inv_wg_attempt inv_all_attempt)+

subsection \<open>The calls of \<open>Stop\<close>\<close>

lemma inv_stop_init: "inv_stop NewRollbackManager"
  by (simp add: inv_stop_def NewRollbackManager_def)

lemma inv_stop_Stop_step:
  assumes st: "Stop_step i s = Some s'" and inv: "inv_stop s"
  shows "inv_stop s'"
proof -
  from st have i: "i < length (stops s)" by (simp add: Stop_step_def split: if_splits)
  show ?thesis
  proof (cases "stops s ! i")
    case StopAtLock
    with st i have free: "\<not> shutdownLock s"
      and s': "s' = s\<lparr>shutdownLock := True, stops := (stops s)[i := StopAtCheck]\<rparr>"
      by (auto simp: Stop_step_def split: if_splits)
    from inv free have none: "\<forall>j < length (stops s). \<not> holds_shutdownLock (stops s ! j)"
      by (auto simp: inv_stop_def)
    from inv none i show ?thesis
      unfolding inv_stop_def s'
      by (auto simp: nth_list_update split: if_splits)
  next
    case StopAtCheck
    from inv i StopAtCheck have only: "\<forall>j < length (stops s). holds_shutdownLock (stops s ! j) \<longrightarrow> j = i"
      by (auto simp: inv_stop_def)
    show ?thesis
    proof (cases "shutdown s")
      case False
      with st i StopAtCheck
      have s': "s' = s\<lparr>shutdown := True, shutdownCh := True, stops := (stops s)[i := StopAtDoneCh]\<rparr>"
        by (auto simp: Stop_step_def split: if_splits)
      from inv only i StopAtCheck show ?thesis
        unfolding inv_stop_def s'
        by (auto simp: nth_list_update split: if_splits)
    next
      case True
      with st i StopAtCheck
      have s': "s' = s\<lparr>stops := (stops s)[i := StopAtWait]\<rparr>"
        by (auto simp: Stop_step_def split: if_splits)
      have "doneCh s"
      proof (rule ccontr)
        assume "\<not> doneCh s"
        with inv True obtain j where "j < length (stops s)" "stops s ! j = StopAtDoneCh"
          by (auto simp: inv_stop_def)
        with only StopAtCheck show False by auto
      qed
      with inv only i StopAtCheck show ?thesis
        unfolding inv_stop_def s'
        by (auto simp: nth_list_update split: if_splits)
    qed
  next
    case StopAtDoneCh
    with st i have d: "doneCh s" and s': "s' = s\<lparr>stops := (stops s)[i := StopAtWait]\<rparr>"
      by (auto simp: Stop_step_def split: if_splits)
    from inv d i StopAtDoneCh show ?thesis
      unfolding inv_stop_def s'
      by (auto simp: nth_list_update split: if_splits)
  next
    case StopAtWait
    with st i have s': "s' = s\<lparr>shutdownLock := False, stops := (stops s)[i := StopReturned]\<rparr>"
      by (auto simp: Stop_step_def split: if_splits)
    from inv i StopAtWait have only: "\<forall>j < length (stops s). holds_shutdownLock (stops s ! j) \<longrightarrow> j = i"
      and d: "doneCh s"
      by (auto simp: inv_stop_def)
    from inv only d i StopAtWait show ?thesis
      unfolding inv_stop_def s'
      by (auto simp: nth_list_update split: if_splits)
  next
    case StopReturned
    with st i show ?thesis by (simp add: Stop_step_def)
  qed
qed

lemma Rollback_step_stop_same:
  assumes "Rollback_step i s = Some s'"
  shows "doneCh s' = doneCh s \<and> shutdown s' = shutdown s \<and> shutdownCh s' = shutdownCh s \<and>
      shutdownLock s' = shutdownLock s \<and> run_loop s' = run_loop s \<and> stops s' = stops s"
proof (cases "r_pc (rollbacks s ! i)")
  case RbAtStartOrLookup
  show ?thesis
  proof (cases "FromContext_err (r_ctx (rollbacks s ! i)) = None \<and> FromContext_ns (r_ctx (rollbacks s ! i)) \<noteq> None")
    case False
    with assms RbAtStartOrLookup show ?thesis
      by (auto simp: Rollback_step_def Let_def split: if_splits option.splits)
  next
    case True
    then obtain ns where ns: "FromContext_err (r_ctx (rollbacks s ! i)) = None"
      "FromContext_ns (r_ctx (rollbacks s ! i)) = Some ns" by auto
    obtain rs s1 where so: "startOrLookupRollback (r_ctx (rollbacks s ! i)) (ns_Path ns @ r_path (rollbacks s ! i)) False s = (rs, s1)"
      by (cases "startOrLookupRollback (r_ctx (rollbacks s ! i)) (ns_Path ns @ r_path (rollbacks s ! i)) False s")
    with assms RbAtStartOrLookup ns
    have s': "s' = s1\<lparr>rollbacks := (rollbacks s1)[i := (rollbacks s ! i)\<lparr>r_rs := Some rs, r_pc := RbAtCancel\<rparr>]\<rparr>"
      by (auto simp: Rollback_step_def Let_def split: if_splits)
    from startOrLookupRollbackD [OF so] show ?thesis
      by (auto simp: s' rest_same_def)
  qed
qed (use assms in \<open>auto simp: Rollback_step_def Let_def split: if_splits option.splits\<close>)

lemma inv_stop_step:
  assumes st: "step x a s = Some s'" and inv: "inv_stop s"
  shows "inv_stop s'"
proof (cases a)
  case RunTriggerNext
  show ?thesis
  proof (cases "run_loop s")
    case (RunInTrigger es)
    show ?thesis
    proof (cases es)
      case Nil
      with st RunTriggerNext RunInTrigger have "s' = s\<lparr>run_loop := RunAtSelect\<rparr>" by auto
      with inv RunInTrigger show ?thesis by (auto simp: inv_stop_def)
    next
      case (Cons e es')
      with st RunTriggerNext RunInTrigger
      have s': "s' = (triggerRollbacks_entry x e s)\<lparr>run_loop := RunInTrigger es'\<rparr>" by auto
      from triggerRollbacks_entryD [OF refl, of x e s]
      have "rest_same s (triggerRollbacks_entry x e s)"
        by (auto simp: rest_same_def)
      with inv RunInTrigger show ?thesis
        unfolding s' by (auto simp: inv_stop_def rest_same_def)
    qed
  qed (use st RunTriggerNext in auto)
next
  case (StopStep i)
  with st inv show ?thesis by (auto intro: inv_stop_Stop_step)
next
  case (RollbackStep i)
  with st have "Rollback_step i s = Some s'" by simp
  from Rollback_step_stop_same [OF this] inv show ?thesis
    by (auto simp: inv_stop_def)
next
  case (AttemptStep i ob)
  with st have "attempt_step x i ob s = Some s'" by simp
  from attempt_step_others [OF this] inv show ?thesis
    by (auto simp: inv_stop_def)
next
  case CallStop
  with st have s': "s' = s\<lparr>stops := stops s @ [StopAtLock]\<rparr>" by auto
  from inv show ?thesis
    unfolding inv_stop_def s'
    by (auto simp: nth_append less_Suc_eq split: if_splits)
qed (use st inv in \<open>auto simp: inv_stop_def split: if_splits\<close>)

subsection \<open>The calls of \<open>Rollback\<close>\<close>

lemma core_le_same: "core_same s s' \<Longrightarrow> inv_heap s \<Longrightarrow> core_le s s'"
  by (simp add: core_same_def core_le_def inv_heap_def)

lemma core_le_spawn: "core_spawn ctx p g s s' \<Longrightarrow> inv_heap s \<Longrightarrow> core_le s s'"
  by (simp add: core_spawn_def core_le_def inv_heap_def nth_append)

lemma core_le_attempt:
  assumes st: "attempt_step x i ob s = Some s'" and hp: "inv_heap s"
  shows "core_le s s'"
proof -
  let ?t = "attempts s ! i"
  let ?t' = "fst (attemptRollback_step x ob ?t)"
  note i = attempt_stepD(1) [OF st] and live = attempt_stepD(2) [OF st]
  note at = attempt_step_attempts [OF st] and hs = attempt_step_heap [OF st]
  from hp i have rs: "a_rs ?t = i" and len: "length (heap s) = length (attempts s)"
    by (simp_all add: inv_heap_def)
  have r: "rank (a_pc ?t) \<le> rank (a_pc ?t')"
    using attemptRollback_step_rank [OF live, of x ob] by simp
  have e: "5 < rank (a_pc ?t) \<longrightarrow> a_err ?t' = a_err ?t"
    using step_rank_late [of ?t x ob] live by simp
  show ?thesis
    unfolding core_le_def
  proof (intro conjI allI impI)
    show "length (attempts s) \<le> length (attempts s')" by (simp add: at)
  next
    fix j assume j: "j < length (attempts s)"
    then show "a_fullPath (attempts s' ! j) = a_fullPath (attempts s ! j)"
      by (cases "j = i") (simp_all add: at step_frame)
    from j r show "rank (a_pc (attempts s ! j)) \<le> rank (a_pc (attempts s' ! j))"
      by (cases "j = i") (simp_all add: at)
    { assume "5 < rank (a_pc (attempts s ! j))"
      with j e show "a_err (attempts s' ! j) = a_err (attempts s ! j)"
        by (cases "j = i") (simp_all add: at) }
    { assume "cancelLockGrabCtx_done (heap s ! j)"
      with j len show "cancelLockGrabCtx_done (heap s' ! j)"
        by (cases "j = i") (simp_all add: hs rs) }
  qed
qed

lemma core_le_step:
  assumes "step x a s = Some s'" and "inv_heap s"
  shows "core_le s s'"
  using step_core [OF assms(1)] assms(2)
  by (blast intro: core_le_same core_le_spawn core_le_attempt)

lemma call_ok_mono:
  assumes "core_le s s'" and "call_ok s c"
  shows "call_ok s' c"
proof (cases "r_rs c")
  case None
  with assms(2) show ?thesis by (simp add: call_ok_def)
next
  case (Some rs)
  with assms(2) have rs: "rs < length (attempts s)" by (simp add: call_ok_def)
  with assms(1) have le: "length (attempts s) \<le> length (attempts s')"
    and fp: "a_fullPath (attempts s' ! rs) = a_fullPath (attempts s ! rs)"
    and rk: "rank (a_pc (attempts s ! rs)) \<le> rank (a_pc (attempts s' ! rs))"
    and er: "5 < rank (a_pc (attempts s ! rs)) \<longrightarrow> a_err (attempts s' ! rs) = a_err (attempts s ! rs)"
    and cn: "cancelLockGrabCtx_done (heap s ! rs) \<longrightarrow> cancelLockGrabCtx_done (heap s' ! rs)"
    by (simp_all add: core_le_def)
  from assms(2) Some rs le fp rk er cn show ?thesis
    by (auto simp: call_ok_def split: option.splits)
qed

lemma step_rollbacks_same:
  assumes st: "step x a s = Some s'"
    and "\<forall>ctx p. a \<noteq> CallRollback ctx p" and "\<forall>i. a \<noteq> RollbackStep i"
  shows "rollbacks s' = rollbacks s"
proof (cases a)
  case RunTriggerNext
  show ?thesis
  proof (cases "run_loop s")
    case (RunInTrigger es)
    show ?thesis
    proof (cases es)
      case Nil
      with st RunTriggerNext RunInTrigger show ?thesis by auto
    next
      case (Cons e es')
      with st RunTriggerNext RunInTrigger
      have s': "s' = (triggerRollbacks_entry x e s)\<lparr>run_loop := RunInTrigger es'\<rparr>" by auto
      from triggerRollbacks_entryD [OF refl, of x e s] show ?thesis
        by (auto simp: s' rest_same_def)
    qed
  qed (use st RunTriggerNext in auto)
next
  case (StopStep i)
  with st show ?thesis by (auto simp: Stop_step_def split: if_splits stop_pc.splits)
next
  case (AttemptStep i ob)
  with st have "attempt_step x i ob s = Some s'" by simp
  from attempt_step_others(7) [OF this] show ?thesis .
qed (use assms in \<open>auto split: if_splits\<close>)

lemma inv_rollbacks_Rollback_step:
  assumes st: "Rollback_step i s = Some s'"
    and hp: "inv_heap s" and reg: "inv_registry s" and wgi: "inv_wg s" and inv: "inv_rollbacks s"
  shows "inv_rollbacks s'"
proof -
  let ?r = "rollbacks s ! i"
  from st have i: "i < length (rollbacks s)" by (simp add: Rollback_step_def split: if_splits)
  with inv have ok: "call_ok s ?r" by (simp add: inv_rollbacks_def)
  have le: "core_le s s'"
    using Rollback_step_core [OF st] hp by (blast intro: core_le_same core_le_spawn)
  have rest: "\<And>c. rollbacks s' = (rollbacks s)[i := c] \<Longrightarrow> call_ok s' c \<Longrightarrow> inv_rollbacks s'"
  proof -
    fix c assume eq: "rollbacks s' = (rollbacks s)[i := c]" and c: "call_ok s' c"
    show "inv_rollbacks s'"
      unfolding inv_rollbacks_def
    proof
      fix d assume "d \<in> set (rollbacks s')"
      then have "d = c \<or> d \<in> set (rollbacks s)"
        using set_update_subset_insert [of "rollbacks s" i c] by (auto simp: eq)
      then show "call_ok s' d"
        using c inv call_ok_mono [OF le] by (auto simp: inv_rollbacks_def)
    qed
  qed
  from hp have len: "length (heap s) = length (attempts s)" by (simp add: inv_heap_def)
  show ?thesis
  proof (cases "r_pc ?r")
    case RbAtStartOrLookup
    with ok have none: "r_rs ?r = None" by (auto simp: call_ok_def split: option.splits)
    show ?thesis
    proof (cases "FromContext_err (r_ctx ?r)")
      case (Some e)
      with st i RbAtStartOrLookup
      have s': "s' = s\<lparr>rollbacks := (rollbacks s)[i := ?r\<lparr>r_result := Some e, r_pc := RbReturned\<rparr>]\<rparr>"
        by (simp add: Rollback_step_def)
      show ?thesis
        by (rule rest [of "?r\<lparr>r_result := Some e, r_pc := RbReturned\<rparr>"])
           (simp_all add: s' call_ok_def none Some)
    next
      case None
      note noerr = this
      show ?thesis
      proof (cases "FromContext_ns (r_ctx ?r)")
        case None
        with st i RbAtStartOrLookup noerr
        have s': "s' = s\<lparr>rollbacks := (rollbacks s)[i := ?r\<lparr>r_pc := RbPanicked\<rparr>]\<rparr>"
          by (simp add: Rollback_step_def)
        show ?thesis
          by (rule rest [of "?r\<lparr>r_pc := RbPanicked\<rparr>"]) (simp_all add: s' call_ok_def none)
      next
        case (Some ns)
        let ?p = "ns_Path ns @ r_path ?r"
        obtain rs s1 where so: "startOrLookupRollback (r_ctx ?r) ?p False s = (rs, s1)"
          by (cases "startOrLookupRollback (r_ctx ?r) ?p False s")
        with st i RbAtStartOrLookup noerr Some
        have s': "s' = s1\<lparr>rollbacks := (rollbacks s1)[i := ?r\<lparr>r_rs := Some rs, r_pc := RbAtCancel\<rparr>]\<rparr>"
          by (simp add: Rollback_step_def)
        from startOrLookupRollbackD [OF so]
        have rb: "rollbacks s1 = rollbacks s"
          and tgt: "rs < length (attempts s1) \<and> a_fullPath (attempts s1 ! rs) = ?p"
          using reg len
          by (auto simp: rest_same_def core_spawn_def inv_registry_def spawn_def)
        show ?thesis
          by (rule rest [of "?r\<lparr>r_rs := Some rs, r_pc := RbAtCancel\<rparr>"])
             (use tgt in \<open>simp_all add: s' rb call_ok_def noerr Some\<close>)
      qed
    qed
  next
    case RbAtCancel
    with ok obtain rs where rs: "r_rs ?r = Some rs" "rs < length (attempts s)"
      by (auto simp: call_ok_def split: option.splits)
    with st i RbAtCancel len
    have s': "s' = s\<lparr>heap := (heap s)[rs := (heap s ! rs)\<lparr>cancelLockGrabCtx_done := True\<rparr>],
                      rollbacks := (rollbacks s)[i := ?r\<lparr>r_pc := RbAtWait\<rparr>]\<rparr>"
      by (simp add: Rollback_step_def)
    show ?thesis
      by (rule rest [of "?r\<lparr>r_pc := RbAtWait\<rparr>"])
         (use ok rs len RbAtCancel in \<open>auto simp: s' call_ok_def split: option.splits\<close>)
  next
    case RbAtWait
    with ok obtain rs where rs: "r_rs ?r = Some rs" "rs < length (attempts s)"
      by (auto simp: call_ok_def split: option.splits)
    with st i RbAtWait len
    have s': "s' = s\<lparr>rollbacks := (rollbacks s)[i := ?r\<lparr>r_pc := RbAtLastError\<rparr>]\<rparr>"
      and w: "wg (heap s ! rs) = 0"
      by (auto simp: Rollback_step_def split: if_splits)
    from wgi rs w have "6 < rank (a_pc (attempts s ! rs))"
      by (auto simp: inv_wg_def split: if_splits)
    then show ?thesis
      by (intro rest [of "?r\<lparr>r_pc := RbAtLastError\<rparr>"])
         (use ok rs RbAtWait in \<open>auto simp: s' call_ok_def split: option.splits\<close>)
  next
    case RbAtLastError
    with ok obtain rs where rs: "r_rs ?r = Some rs" "rs < length (attempts s)"
      and fin: "6 < rank (a_pc (attempts s ! rs))"
      by (auto simp: call_ok_def split: option.splits)
    with st i RbAtLastError len
    have s': "s' = s\<lparr>rollbacks := (rollbacks s)[i := ?r\<lparr>r_result := lastError (heap s ! rs),
                                                                r_pc := RbReturned\<rparr>]\<rparr>"
      by (auto simp: Rollback_step_def split: if_splits)
    from wgi rs fin have "lastError (heap s ! rs) = a_err (attempts s ! rs)"
      by (auto simp: inv_wg_def)
    then show ?thesis
      by (intro rest [of "?r\<lparr>r_result := lastError (heap s ! rs), r_pc := RbReturned\<rparr>"])
         (use ok rs RbAtLastError in \<open>auto simp: s' call_ok_def split: option.splits\<close>)
  next
    case RbReturned
    with st i show ?thesis by (simp add: Rollback_step_def)
  next
    case RbPanicked
    with st i show ?thesis by (simp add: Rollback_step_def)
  qed
qed

lemma inv_rollbacks_step:
  assumes st: "step x a s = Some s'" and core: "inv_core s" and inv: "inv_rollbacks s"
  shows "inv_rollbacks s'"
proof -
  from core have hp: "inv_heap s" and reg: "inv_registry s" and wgi: "inv_wg s"
    by (simp_all add: inv_core_def)
  have le: "core_le s s'" using st hp by (rule core_le_step)
  show ?thesis
  proof (cases a)
    case (CallRollback ctx p)
    with st have s': "rollbacks s' = rollbacks s @
        [\<lparr>r_ctx = ctx, r_path = p, r_pc = RbAtStartOrLookup, r_rs = None, r_result = None\<rparr>]"
      by auto
    from inv call_ok_mono [OF le] show ?thesis
      by (auto simp: inv_rollbacks_def s' call_ok_def)
  next
    case (RollbackStep i)
    with st have "Rollback_step i s = Some s'" by simp
    then show ?thesis using hp reg wgi inv by (rule inv_rollbacks_Rollback_step)
  qed (use inv call_ok_mono [OF le] step_rollbacks_same [OF st] in \<open>auto simp: inv_rollbacks_def\<close>)
qed

subsection \<open>Every reachable state satisfies the invariants\<close>

lemma invariant_init: "invariant NewRollbackManager"
  using inv_core_init inv_stop_init
  by (simp add: invariant_def inv_rollbacks_def NewRollbackManager_def)

lemma invariant_step: "step x a s = Some s' \<Longrightarrow> invariant s \<Longrightarrow> invariant s'"
  unfolding invariant_def
  by (blast intro: inv_core_step inv_stop_step inv_rollbacks_step)

lemma invariant_exec: "exec x as s = Some s' \<Longrightarrow> invariant s \<Longrightarrow> invariant s'"
proof (induction as arbitrary: s)
  case Nil
  then show ?case by simp
next
  case (Cons a as)
  then obtain s1 where "step x a s = Some s1" "exec x as s1 = Some s'"
    by (auto split: option.splits)
  with Cons show ?case by (blast intro: invariant_step)
qed

lemma reachable_invariant: "exec x as NewRollbackManager = Some s \<Longrightarrow> invariant s"
  using invariant_exec invariant_init by blast

subsection \<open>Consequences used by the claims\<close>

lemma filter_at_most_one:
  assumes "\<forall>i < length xs. \<forall>j < length xs. P (xs ! i) \<longrightarrow> P (xs ! j) \<longrightarrow> i = j"
  shows "length (filter P xs) = (if \<exists>i < length xs. P (xs ! i) then 1 else 0)"
  using assms
proof (induction xs)
  case Nil
  then show ?case by simp
next
  case (Cons a xs)
  have tl: "\<forall>i < length xs. \<forall>j < length xs. P (xs ! i) \<longrightarrow> P (xs ! j) \<longrightarrow> i = j"
  proof (intro allI impI)
    fix i j assume "i < length xs" "j < length xs" "P (xs ! i)" "P (xs ! j)"
    with Cons.prems [rule_format, of "Suc i" "Suc j"] show "i = j" by simp
  qed
  note IH = Cons.IH [OF tl]
  have none: "P a \<Longrightarrow> filter P xs = []"
  proof -
    assume a: "P a"
    have "\<forall>y \<in> set xs. \<not> P y"
    proof
      fix y assume "y \<in> set xs"
      then obtain i where i: "i < length xs" "xs ! i = y" by (auto simp: in_set_conv_nth)
      show "\<not> P y"
      proof
        assume "P y"
        with Cons.prems [rule_format, of 0 "Suc i"] a i show False by simp
      qed
    qed
    then show ?thesis by (simp add: filter_empty_conv)
  qed
  show ?case
  proof (cases "P a")
    case True
    have "\<exists>i < length (a # xs). P ((a # xs) ! i)"
      using True by (intro exI [of _ 0]) simp
    with True none show ?thesis by simp
  next
    case False
    have "(\<exists>i < length (a # xs). P ((a # xs) ! i)) = (\<exists>i < length xs. P (xs ! i))"
    proof
      assume "\<exists>i < length (a # xs). P ((a # xs) ! i)"
      then obtain i where "i < length (a # xs)" "P ((a # xs) ! i)" by blast
      with False show "\<exists>i < length xs. P (xs ! i)" by (cases i) auto
    next
      assume "\<exists>i < length xs. P (xs ! i)"
      then obtain i where "i < length xs" "P (xs ! i)" by blast
      then show "\<exists>i < length (a # xs). P ((a # xs) ! i)" by (intro exI [of _ "Suc i"]) simp
    qed
    with IH False show ?thesis by simp
  qed
qed

lemma registry_live:
  "inv_registry s \<Longrightarrow> i < length (attempts s) \<Longrightarrow> a_pc (attempts s ! i) \<noteq> AtReturned \<Longrightarrow>
   inflight s (a_fullPath (attempts s ! i)) = Some i"
  by (simp add: inv_registry_def)

lemma registry_entry:
  "inv_registry s \<Longrightarrow> inflight s p = Some i \<Longrightarrow>
   i < length (attempts s) \<and> a_fullPath (attempts s ! i) = p \<and> a_pc (attempts s ! i) \<noteq> AtReturned"
  by (simp add: inv_registry_def)

lemma live_count:
  assumes reg: "inv_registry s"
  shows "length (filter (live_for p) (attempts s)) = (case inflight s p of None \<Rightarrow> 0 | Some rs \<Rightarrow> 1)"
proof -
  have uniq: "\<forall>i < length (attempts s). \<forall>j < length (attempts s).
      live_for p (attempts s ! i) \<longrightarrow> live_for p (attempts s ! j) \<longrightarrow> i = j"
  proof (intro allI impI)
    fix i j assume i: "i < length (attempts s)" and j: "j < length (attempts s)"
      and li: "live_for p (attempts s ! i)" and lj: "live_for p (attempts s ! j)"
    from registry_live [OF reg i] li have "inflight s p = Some i"
      by (simp add: live_for_def)
    moreover from registry_live [OF reg j] lj have "inflight s p = Some j"
      by (simp add: live_for_def)
    ultimately show "i = j" by simp
  qed
  have ex: "(\<exists>i < length (attempts s). live_for p (attempts s ! i)) = (inflight s p \<noteq> None)"
  proof
    assume "\<exists>i < length (attempts s). live_for p (attempts s ! i)"
    then obtain i where i: "i < length (attempts s)" and "live_for p (attempts s ! i)" by blast
    with registry_live [OF reg i] have "inflight s p = Some i" by (simp add: live_for_def)
    then show "inflight s p \<noteq> None" by simp
  next
    assume "inflight s p \<noteq> None"
    then obtain i where "inflight s p = Some i" by blast
    from registry_entry [OF reg this] have "i < length (attempts s) \<and> live_for p (attempts s ! i)"
      by (simp add: live_for_def)
    then show "\<exists>i < length (attempts s). live_for p (attempts s ! i)" by blast
  qed
  show ?thesis
    unfolding filter_at_most_one [OF uniq] ex by (simp split: option.split)
qed

lemmas sample_defs = NewRollbackManager_def Rollback_step_def attempt_step_def Stop_step_def
  startOrLookupRollback_def triggerRollbacks_entry_def ns1_ctx_def ContextWithNamespace_def
  spawn_def attemptRollback_step_def route_failed_def terminal_error_def IsError_def
  Response_Error_def sample_externals_def TrimmedPath_def Let_def
  two_callers_joined_def attempt_to_the_end_def two_callers_returned_def

lemma inflight_cases:
  "(case inflight s fullPath of
      Some rsInflight \<Rightarrow> startOrLookupRollback ctx fullPath g s = (rsInflight, s)
    | None \<Rightarrow>
        fst (startOrLookupRollback ctx fullPath g s) = length (heap s) \<and>
        attempts (snd (startOrLookupRollback ctx fullPath g s)) =
          attempts s @ [spawn ctx fullPath (length (heap s)) g] \<and>
        inflight (snd (startOrLookupRollback ctx fullPath g s)) fullPath = Some (length (heap s)))"
  by (simp add: startOrLookupRollback_def Let_def split: option.split)

lemmas sample_defs2 = sample_defs sample_mount_def stop_begun_def stop_about_to_return_def




lemma call_okD:
  assumes "call_ok s c" and "FromContext_err (r_ctx c) = None" and "FromContext_ns (r_ctx c) = Some ns"
    and "r_pc c = RbReturned"
  shows "\<exists>rs. r_rs c = Some rs \<and> rs < length (attempts s) \<and>
           a_fullPath (attempts s ! rs) = ns_Path ns @ r_path c \<and>
           cancelLockGrabCtx_done (heap s ! rs) \<and>
           6 < rank (a_pc (attempts s ! rs)) \<and>
           r_result c = a_err (attempts s ! rs)"
  using assms by (cases "r_rs c") (auto simp: call_ok_def)

lemma Rollback_step_start:
  assumes "i < length (rollbacks s)" and "r_pc (rollbacks s ! i) = RbAtStartOrLookup"
    and "FromContext_err (r_ctx (rollbacks s ! i)) = None"
    and "FromContext_ns (r_ctx (rollbacks s ! i)) = Some ns"
  shows "Rollback_step i s =
     Some ((snd (startOrLookupRollback (r_ctx (rollbacks s ! i))
                   (ns_Path ns @ r_path (rollbacks s ! i)) False s))
           \<lparr>rollbacks := (rollbacks s)[i := (rollbacks s ! i)
               \<lparr>r_rs := Some (fst (startOrLookupRollback (r_ctx (rollbacks s ! i))
                                      (ns_Path ns @ r_path (rollbacks s ! i)) False s)),
                r_pc := RbAtCancel\<rparr>]\<rparr>)"
proof -
  obtain rs s1 where so: "startOrLookupRollback (r_ctx (rollbacks s ! i))
      (ns_Path ns @ r_path (rollbacks s ! i)) False s = (rs, s1)"
    by (cases "startOrLookupRollback (r_ctx (rollbacks s ! i))
      (ns_Path ns @ r_path (rollbacks s ! i)) False s")
  from startOrLookupRollbackD [OF so] have "rollbacks s1 = rollbacks s"
    by (auto simp: rest_same_def)
  with assms so show ?thesis by (simp add: Rollback_step_def)
qed


lemma call_ok_pointer:
  assumes "call_ok s c"
    and "r_pc c = RbAtCancel \<or> r_pc c = RbAtWait \<or> r_pc c = RbAtLastError"
  shows "\<exists>rs. r_rs c = Some rs \<and> rs < length (attempts s) \<and>
           (r_pc c \<noteq> RbAtCancel \<longrightarrow> cancelLockGrabCtx_done (heap s ! rs)) \<and>
           (r_pc c = RbAtLastError \<longrightarrow> 6 < rank (a_pc (attempts s ! rs)))"
  using assms by (cases "r_rs c") (auto simp: call_ok_def)

lemma Rollback_step_cancel:
  assumes inv: "invariant s" and i: "i < length (rollbacks s)"
    and pc: "r_pc (rollbacks s ! i) = RbAtCancel"
  shows "\<exists>rs. r_rs (rollbacks s ! i) = Some rs \<and> rs < length (attempts s) \<and>
           Rollback_step i s =
             Some (s\<lparr>heap := (heap s)[rs := (heap s ! rs)\<lparr>cancelLockGrabCtx_done := True\<rparr>],
                     rollbacks := (rollbacks s)[i := (rollbacks s ! i)\<lparr>r_pc := RbAtWait\<rparr>]\<rparr>)"
proof -
  from inv have rb: "inv_rollbacks s" and hp: "inv_heap s"
    by (simp_all add: invariant_def inv_core_def)
  from rb i have "call_ok s (rollbacks s ! i)" by (simp add: inv_rollbacks_def)
  from call_ok_pointer [OF this] pc obtain rs where
    rs: "r_rs (rollbacks s ! i) = Some rs" "rs < length (attempts s)" by auto
  with hp have "rs < length (heap s)" by (simp add: inv_heap_def)
  with i pc rs have "Rollback_step i s =
      Some (s\<lparr>heap := (heap s)[rs := (heap s ! rs)\<lparr>cancelLockGrabCtx_done := True\<rparr>],
              rollbacks := (rollbacks s)[i := (rollbacks s ! i)\<lparr>r_pc := RbAtWait\<rparr>]\<rparr>)"
    by (simp add: Rollback_step_def)
  with rs show ?thesis by blast
qed

lemma Rollback_step_wait:
  assumes inv: "invariant s" and i: "i < length (rollbacks s)"
    and pc: "r_pc (rollbacks s ! i) = RbAtWait"
  shows "\<exists>rs. r_rs (rollbacks s ! i) = Some rs \<and> rs < length (attempts s) \<and>
           cancelLockGrabCtx_done (heap s ! rs) \<and>
           (wg (heap s ! rs) = 0) = (6 < rank (a_pc (attempts s ! rs))) \<and>
           (wg (heap s ! rs) \<noteq> 0 \<longrightarrow> Rollback_step i s = None) \<and>
           (wg (heap s ! rs) = 0 \<longrightarrow>
              Rollback_step i s =
                Some (s\<lparr>rollbacks := (rollbacks s)[i := (rollbacks s ! i)\<lparr>r_pc := RbAtLastError\<rparr>]\<rparr>) \<and>
              exec x [RollbackStep i, RollbackStep i] s =
                Some (s\<lparr>rollbacks := (rollbacks s)[i := (rollbacks s ! i)
                        \<lparr>r_result := a_err (attempts s ! rs), r_pc := RbReturned\<rparr>]\<rparr>))"
proof -
  from inv have rb: "inv_rollbacks s" and hp: "inv_heap s" and wgi: "inv_wg s"
    by (simp_all add: invariant_def inv_core_def)
  from rb i have "call_ok s (rollbacks s ! i)" by (simp add: inv_rollbacks_def)
  from call_ok_pointer [OF this] pc obtain rs where
    rs: "r_rs (rollbacks s ! i) = Some rs" "rs < length (attempts s)"
      "cancelLockGrabCtx_done (heap s ! rs)" by auto
  from rs(2) hp have len: "rs < length (heap s)" by (simp add: inv_heap_def)
  from wgi rs(2)
  have w: "wg (heap s ! rs) = (if rank (a_pc (attempts s ! rs)) \<le> 6 then 1 else 0)"
    and l: "5 < rank (a_pc (attempts s ! rs)) \<longrightarrow> lastError (heap s ! rs) = a_err (attempts s ! rs)"
    by (simp_all add: inv_wg_def)
  have iff: "(wg (heap s ! rs) = 0) = (6 < rank (a_pc (attempts s ! rs)))"
    using w by (auto split: if_splits)
  have blocked: "wg (heap s ! rs) \<noteq> 0 \<longrightarrow> Rollback_step i s = None"
    using i pc rs by (simp add: Rollback_step_def)
  have go: "wg (heap s ! rs) = 0 \<longrightarrow>
      Rollback_step i s =
        Some (s\<lparr>rollbacks := (rollbacks s)[i := (rollbacks s ! i)\<lparr>r_pc := RbAtLastError\<rparr>]\<rparr>) \<and>
      exec x [RollbackStep i, RollbackStep i] s =
        Some (s\<lparr>rollbacks := (rollbacks s)[i := (rollbacks s ! i)
                \<lparr>r_result := a_err (attempts s ! rs), r_pc := RbReturned\<rparr>]\<rparr>)"
  proof
    assume z: "wg (heap s ! rs) = 0"
    let ?s1 = "s\<lparr>rollbacks := (rollbacks s)[i := (rollbacks s ! i)\<lparr>r_pc := RbAtLastError\<rparr>]\<rparr>"
    from z i pc rs len have one: "Rollback_step i s = Some ?s1"
      by (simp add: Rollback_step_def)
    from z iff l have le: "lastError (heap s ! rs) = a_err (attempts s ! rs)" by simp
    from i rs len have two: "Rollback_step i ?s1 =
        Some (s\<lparr>rollbacks := (rollbacks s)[i := (rollbacks s ! i)
                \<lparr>r_result := lastError (heap s ! rs), r_pc := RbReturned\<rparr>]\<rparr>)"
      by (simp add: Rollback_step_def)
    from one two le show "Rollback_step i s = Some ?s1 \<and>
      exec x [RollbackStep i, RollbackStep i] s =
        Some (s\<lparr>rollbacks := (rollbacks s)[i := (rollbacks s ! i)
                \<lparr>r_result := a_err (attempts s ! rs), r_pc := RbReturned\<rparr>]\<rparr>)"
      by simp
  qed
  from rs iff blocked go show ?thesis by blast
qed

lemma Rollback_step_lastError:
  assumes inv: "invariant s" and i: "i < length (rollbacks s)"
    and pc: "r_pc (rollbacks s ! i) = RbAtLastError"
  shows "\<exists>rs. r_rs (rollbacks s ! i) = Some rs \<and> rs < length (attempts s) \<and>
           lastError (heap s ! rs) = a_err (attempts s ! rs) \<and>
           Rollback_step i s =
             Some (s\<lparr>rollbacks := (rollbacks s)[i := (rollbacks s ! i)
                     \<lparr>r_result := lastError (heap s ! rs), r_pc := RbReturned\<rparr>]\<rparr>)"
proof -
  from inv have rb: "inv_rollbacks s" and hp: "inv_heap s" and wgi: "inv_wg s"
    by (simp_all add: invariant_def inv_core_def)
  from rb i have "call_ok s (rollbacks s ! i)" by (simp add: inv_rollbacks_def)
  from call_ok_pointer [OF this] pc obtain rs where
    rs: "r_rs (rollbacks s ! i) = Some rs" "rs < length (attempts s)"
      "6 < rank (a_pc (attempts s ! rs))" by auto
  from rs(2) hp have len: "rs < length (heap s)" by (simp add: inv_heap_def)
  from wgi rs(2,3) have le: "lastError (heap s ! rs) = a_err (attempts s ! rs)"
    by (simp add: inv_wg_def)
  from i pc rs len have "Rollback_step i s =
      Some (s\<lparr>rollbacks := (rollbacks s)[i := (rollbacks s ! i)
              \<lparr>r_result := lastError (heap s ! rs), r_pc := RbReturned\<rparr>]\<rparr>)"
    by (simp add: Rollback_step_def)
  with rs le show ?thesis by blast
qed

lemma Rollback_call_returned:
  assumes inv: "invariant s" and i: "i < length (rollbacks s)"
    and noerr: "FromContext_err (r_ctx (rollbacks s ! i)) = None"
    and ns: "FromContext_ns (r_ctx (rollbacks s ! i)) = Some ns"
    and ret: "r_pc (rollbacks s ! i) = RbReturned"
  shows "\<exists>rs. r_rs (rollbacks s ! i) = Some rs \<and> rs < length (attempts s) \<and>
               a_fullPath (attempts s ! rs) = ns_Path ns @ r_path (rollbacks s ! i) \<and>
               cancelLockGrabCtx_done (heap s ! rs) \<and>
               6 < rank (a_pc (attempts s ! rs)) \<and> wg (heap s ! rs) = 0 \<and>
               r_result (rollbacks s ! i) = a_err (attempts s ! rs) \<and>
               r_result (rollbacks s ! i) = lastError (heap s ! rs) \<and>
               (\<forall>j < length (rollbacks s).
                  r_rs (rollbacks s ! j) = Some rs \<longrightarrow> r_pc (rollbacks s ! j) = RbReturned \<longrightarrow>
                  r_result (rollbacks s ! j) = r_result (rollbacks s ! i))"
proof -
  from inv have rb: "inv_rollbacks s" and wgi: "inv_wg s"
    by (simp_all add: invariant_def inv_core_def)
  from rb i have "call_ok s (rollbacks s ! i)" by (simp add: inv_rollbacks_def)
  from call_okD [OF this noerr ns ret] obtain rs where
    rs: "r_rs (rollbacks s ! i) = Some rs" "rs < length (attempts s)"
      "a_fullPath (attempts s ! rs) = ns_Path ns @ r_path (rollbacks s ! i)"
      "cancelLockGrabCtx_done (heap s ! rs)" "6 < rank (a_pc (attempts s ! rs))"
      "r_result (rollbacks s ! i) = a_err (attempts s ! rs)"
    by blast
  from wgi rs(2,5) have hp: "wg (heap s ! rs) = 0" "lastError (heap s ! rs) = a_err (attempts s ! rs)"
    by (simp_all add: inv_wg_def)
  have others: "\<forall>j < length (rollbacks s).
      r_rs (rollbacks s ! j) = Some rs \<longrightarrow> r_pc (rollbacks s ! j) = RbReturned \<longrightarrow>
      r_result (rollbacks s ! j) = r_result (rollbacks s ! i)"
  proof (intro allI impI)
    fix j assume "j < length (rollbacks s)" and j: "r_rs (rollbacks s ! j) = Some rs"
      "r_pc (rollbacks s ! j) = RbReturned"
    with rb have "call_ok s (rollbacks s ! j)" by (simp add: inv_rollbacks_def)
    with j have "r_result (rollbacks s ! j) = a_err (attempts s ! rs)"
      by (simp add: call_ok_def)
    with rs(6) show "r_result (rollbacks s ! j) = r_result (rollbacks s ! i)" by simp
  qed
  from rs hp others show ?thesis
    by (intro exI [of _ rs]) simp
qed

lemma cancelled_attempt_not_blocked:
  assumes inv: "invariant s" and rs: "rs < length (attempts s)"
    and live: "a_pc (attempts s ! rs) \<noteq> AtReturned"
    and c: "cancelLockGrabCtx_done (heap s ! rs)"
    and ob: "shutdownCh_closed ob = shutdownCh s"
  shows "attempt_step x rs ob s \<noteq> None"
proof -
  from inv have hp: "inv_heap s" by (simp add: invariant_def inv_core_def)
  with rs have "a_rs (attempts s ! rs) = rs" "rs < length (heap s)"
    by (simp_all add: inv_heap_def)
  with rs live c ob show ?thesis
    by (simp add: attempt_step_def Let_def split: prod.split)
qed

lemmas sample_defs3 = sample_defs2 stopped_route_failed_def sweep_attempt_joined_def
  sweep_attempt_cancelled_def sweep_attempt_returned_def

section \<open>Claims about the manager\<close>

text \<open>
  C1. For every full path, while an entry for the path exists in the in-flight registry,
  \<open>startOrLookupRollback\<close> called for that path returns the existing \<open>rollbackState\<close> and
  leaves the state as it is, so it starts no attempt; when no entry exists it registers a
  fresh \<open>rollbackState\<close> and starts exactly one attempt. In every state that an execution
  reaches, the number of attempts for the path that have not yet removed their entry is 1
  when the path has an entry and 0 when it has none: at any instant at most one attempt
  exists for a path.
\<close>

theorem startOrLookupRollback_one_attempt_per_path:
  assumes "exec x as NewRollbackManager = Some s"
  shows "(case inflight s fullPath of
            Some rsInflight \<Rightarrow> startOrLookupRollback ctx fullPath g s = (rsInflight, s)
          | None \<Rightarrow>
              fst (startOrLookupRollback ctx fullPath g s) = length (heap s) \<and>
              attempts (snd (startOrLookupRollback ctx fullPath g s)) =
                attempts s @ [spawn ctx fullPath (length (heap s)) g] \<and>
              inflight (snd (startOrLookupRollback ctx fullPath g s)) fullPath = Some (length (heap s))) \<and>
         length (filter (live_for fullPath) (attempts s)) =
           (case inflight s fullPath of None \<Rightarrow> 0 | Some rsInflight \<Rightarrow> 1)"
proof -
  from reachable_invariant [OF assms] have "inv_registry s"
    by (simp add: invariant_def inv_core_def)
  from live_count [OF this] inflight_cases show ?thesis by blast
qed

theorem startOrLookupRollback_one_attempt_per_path_witness:
  "exec sample_externals two_callers_joined NewRollbackManager \<noteq> None \<and>
   inflight (the (exec sample_externals two_callers_joined NewRollbackManager)) ''ns1/secret/'' = Some 0 \<and>
   startOrLookupRollback ns1_ctx ''ns1/secret/'' True
       (the (exec sample_externals two_callers_joined NewRollbackManager)) =
     (0, the (exec sample_externals two_callers_joined NewRollbackManager)) \<and>
   length (filter (live_for ''ns1/secret/'')
     (attempts (the (exec sample_externals two_callers_joined NewRollbackManager)))) = 1"
proof -
  have ne: "exec sample_externals two_callers_joined NewRollbackManager \<noteq> None"
    by (simp add: sample_defs)
  then have e: "exec sample_externals two_callers_joined NewRollbackManager =
      Some (the (exec sample_externals two_callers_joined NewRollbackManager))"
    by simp
  have i: "inflight (the (exec sample_externals two_callers_joined NewRollbackManager)) ''ns1/secret/'' = Some 0"
    by (simp add: sample_defs)
  from startOrLookupRollback_one_attempt_per_path
    [OF e, where fullPath = "''ns1/secret/''" and ctx = ns1_ctx and g = True] i
  have "startOrLookupRollback ns1_ctx ''ns1/secret/'' True
       (the (exec sample_externals two_callers_joined NewRollbackManager)) =
     (0, the (exec sample_externals two_callers_joined NewRollbackManager)) \<and>
   length (filter (live_for ''ns1/secret/'')
     (attempts (the (exec sample_externals two_callers_joined NewRollbackManager)))) = 1"
    by simp
  with ne i show ?thesis by blast
qed




text \<open>
  C4. A call \<open>Rollback(ctx, path)\<close> whose context holds a namespace, in every state that an
  execution reaches: its first step starts or joins the attempt for the namespace's path
  followed by \<open>path\<close>, with \<open>grabStatelock\<close> false. Its next step, the cancel function of
  the \<open>rollbackState\<close> it got, is possible whatever the attempt is doing, and sets the flag
  of that \<open>rollbackState\<close>. At \<open>rs.Wait()\<close> the call is blocked exactly as long as the
  completion signal is not released, which is as long as the attempt has not run
  \<open>rs.Done()\<close>; meanwhile the attempt, its lock grab cancelled, can take its next step
  under every observation that sees \<open>shutdownCh\<close> as it is; once the signal is released
  the call returns in two steps with the terminal error of the attempt. Once the call has
  returned, the lock grab of the attempt it joined has been cancelled, that attempt has
  recorded its terminal error and released its completion signal, and the call has
  returned that error; every other call that joined the same attempt and has returned has
  returned the same error.
\<close>

theorem Rollback_joins_and_returns_attempt_error:
  assumes "exec x as NewRollbackManager = Some s" and "i < length (rollbacks s)"
    and "FromContext_err (r_ctx (rollbacks s ! i)) = None"
    and "FromContext_ns (r_ctx (rollbacks s ! i)) = Some ns"
  shows "(r_pc (rollbacks s ! i) = RbAtStartOrLookup \<longrightarrow>
            Rollback_step i s =
              Some ((snd (startOrLookupRollback (r_ctx (rollbacks s ! i))
                            (ns_Path ns @ r_path (rollbacks s ! i)) False s))
                    \<lparr>rollbacks := (rollbacks s)[i := (rollbacks s ! i)
                        \<lparr>r_rs := Some (fst (startOrLookupRollback (r_ctx (rollbacks s ! i))
                                               (ns_Path ns @ r_path (rollbacks s ! i)) False s)),
                         r_pc := RbAtCancel\<rparr>]\<rparr>)) \<and>
         (r_pc (rollbacks s ! i) = RbReturned \<longrightarrow>
            (\<exists>rs. r_rs (rollbacks s ! i) = Some rs \<and> rs < length (attempts s) \<and>
               a_fullPath (attempts s ! rs) = ns_Path ns @ r_path (rollbacks s ! i) \<and>
               cancelLockGrabCtx_done (heap s ! rs) \<and>
               6 < rank (a_pc (attempts s ! rs)) \<and> wg (heap s ! rs) = 0 \<and>
               r_result (rollbacks s ! i) = a_err (attempts s ! rs) \<and>
               r_result (rollbacks s ! i) = lastError (heap s ! rs) \<and>
               (\<forall>j < length (rollbacks s).
                  r_rs (rollbacks s ! j) = Some rs \<longrightarrow> r_pc (rollbacks s ! j) = RbReturned \<longrightarrow>
                  r_result (rollbacks s ! j) = r_result (rollbacks s ! i)))) \<and>
         (r_pc (rollbacks s ! i) = RbAtCancel \<longrightarrow>
            (\<exists>rs. r_rs (rollbacks s ! i) = Some rs \<and> rs < length (attempts s) \<and>
               Rollback_step i s =
                 Some (s\<lparr>heap := (heap s)[rs := (heap s ! rs)\<lparr>cancelLockGrabCtx_done := True\<rparr>],
                         rollbacks := (rollbacks s)[i := (rollbacks s ! i)\<lparr>r_pc := RbAtWait\<rparr>]\<rparr>))) \<and>
         (r_pc (rollbacks s ! i) = RbAtWait \<longrightarrow>
            (\<exists>rs. r_rs (rollbacks s ! i) = Some rs \<and> rs < length (attempts s) \<and>
               cancelLockGrabCtx_done (heap s ! rs) \<and>
               (wg (heap s ! rs) = 0) = (6 < rank (a_pc (attempts s ! rs))) \<and>
               (wg (heap s ! rs) \<noteq> 0 \<longrightarrow> Rollback_step i s = None) \<and>
               (wg (heap s ! rs) = 0 \<longrightarrow>
                  Rollback_step i s =
                    Some (s\<lparr>rollbacks := (rollbacks s)[i := (rollbacks s ! i)\<lparr>r_pc := RbAtLastError\<rparr>]\<rparr>) \<and>
                  exec x [RollbackStep i, RollbackStep i] s =
                    Some (s\<lparr>rollbacks := (rollbacks s)[i := (rollbacks s ! i)
                            \<lparr>r_result := a_err (attempts s ! rs), r_pc := RbReturned\<rparr>]\<rparr>)) \<and>
               (a_pc (attempts s ! rs) \<noteq> AtReturned \<longrightarrow>
                  (\<forall>ob. shutdownCh_closed ob = shutdownCh s \<longrightarrow> attempt_step x rs ob s \<noteq> None)))) \<and>
         (r_pc (rollbacks s ! i) = RbAtLastError \<longrightarrow>
            (\<exists>rs. r_rs (rollbacks s ! i) = Some rs \<and> rs < length (attempts s) \<and>
               lastError (heap s ! rs) = a_err (attempts s ! rs) \<and>
               Rollback_step i s =
                 Some (s\<lparr>rollbacks := (rollbacks s)[i := (rollbacks s ! i)
                         \<lparr>r_result := lastError (heap s ! rs), r_pc := RbReturned\<rparr>]\<rparr>)))"
proof -
  note inv = reachable_invariant [OF assms(1)]
  have start: "r_pc (rollbacks s ! i) = RbAtStartOrLookup \<longrightarrow>
            Rollback_step i s =
              Some ((snd (startOrLookupRollback (r_ctx (rollbacks s ! i))
                            (ns_Path ns @ r_path (rollbacks s ! i)) False s))
                    \<lparr>rollbacks := (rollbacks s)[i := (rollbacks s ! i)
                        \<lparr>r_rs := Some (fst (startOrLookupRollback (r_ctx (rollbacks s ! i))
                                               (ns_Path ns @ r_path (rollbacks s ! i)) False s)),
                         r_pc := RbAtCancel\<rparr>]\<rparr>)"
    using assms(2-4) by (simp add: Rollback_step_start)
  have returned: "r_pc (rollbacks s ! i) = RbReturned \<longrightarrow>
            (\<exists>rs. r_rs (rollbacks s ! i) = Some rs \<and> rs < length (attempts s) \<and>
               a_fullPath (attempts s ! rs) = ns_Path ns @ r_path (rollbacks s ! i) \<and>
               cancelLockGrabCtx_done (heap s ! rs) \<and>
               6 < rank (a_pc (attempts s ! rs)) \<and> wg (heap s ! rs) = 0 \<and>
               r_result (rollbacks s ! i) = a_err (attempts s ! rs) \<and>
               r_result (rollbacks s ! i) = lastError (heap s ! rs) \<and>
               (\<forall>j < length (rollbacks s).
                  r_rs (rollbacks s ! j) = Some rs \<longrightarrow> r_pc (rollbacks s ! j) = RbReturned \<longrightarrow>
                  r_result (rollbacks s ! j) = r_result (rollbacks s ! i)))"
    using Rollback_call_returned [OF inv assms(2-4)] by blast
  have cancel: "r_pc (rollbacks s ! i) = RbAtCancel \<longrightarrow>
            (\<exists>rs. r_rs (rollbacks s ! i) = Some rs \<and> rs < length (attempts s) \<and>
               Rollback_step i s =
                 Some (s\<lparr>heap := (heap s)[rs := (heap s ! rs)\<lparr>cancelLockGrabCtx_done := True\<rparr>],
                         rollbacks := (rollbacks s)[i := (rollbacks s ! i)\<lparr>r_pc := RbAtWait\<rparr>]\<rparr>))"
    using Rollback_step_cancel [OF inv assms(2)] by blast
  have wait: "r_pc (rollbacks s ! i) = RbAtWait \<longrightarrow>
            (\<exists>rs. r_rs (rollbacks s ! i) = Some rs \<and> rs < length (attempts s) \<and>
               cancelLockGrabCtx_done (heap s ! rs) \<and>
               (wg (heap s ! rs) = 0) = (6 < rank (a_pc (attempts s ! rs))) \<and>
               (wg (heap s ! rs) \<noteq> 0 \<longrightarrow> Rollback_step i s = None) \<and>
               (wg (heap s ! rs) = 0 \<longrightarrow>
                  Rollback_step i s =
                    Some (s\<lparr>rollbacks := (rollbacks s)[i := (rollbacks s ! i)\<lparr>r_pc := RbAtLastError\<rparr>]\<rparr>) \<and>
                  exec x [RollbackStep i, RollbackStep i] s =
                    Some (s\<lparr>rollbacks := (rollbacks s)[i := (rollbacks s ! i)
                            \<lparr>r_result := a_err (attempts s ! rs), r_pc := RbReturned\<rparr>]\<rparr>)) \<and>
               (a_pc (attempts s ! rs) \<noteq> AtReturned \<longrightarrow>
                  (\<forall>ob. shutdownCh_closed ob = shutdownCh s \<longrightarrow> attempt_step x rs ob s \<noteq> None)))"
  proof
    assume pc: "r_pc (rollbacks s ! i) = RbAtWait"
    from Rollback_step_wait [OF inv assms(2) pc, of x] obtain rs where
      rs: "r_rs (rollbacks s ! i) = Some rs" "rs < length (attempts s)"
        "cancelLockGrabCtx_done (heap s ! rs)"
        "(wg (heap s ! rs) = 0) = (6 < rank (a_pc (attempts s ! rs)))"
        "wg (heap s ! rs) \<noteq> 0 \<longrightarrow> Rollback_step i s = None"
        "wg (heap s ! rs) = 0 \<longrightarrow>
           Rollback_step i s =
             Some (s\<lparr>rollbacks := (rollbacks s)[i := (rollbacks s ! i)\<lparr>r_pc := RbAtLastError\<rparr>]\<rparr>) \<and>
           exec x [RollbackStep i, RollbackStep i] s =
             Some (s\<lparr>rollbacks := (rollbacks s)[i := (rollbacks s ! i)
                     \<lparr>r_result := a_err (attempts s ! rs), r_pc := RbReturned\<rparr>]\<rparr>)"
      by blast
    have free: "a_pc (attempts s ! rs) \<noteq> AtReturned \<longrightarrow>
        (\<forall>ob. shutdownCh_closed ob = shutdownCh s \<longrightarrow> attempt_step x rs ob s \<noteq> None)"
      using cancelled_attempt_not_blocked [OF inv rs(2) _ rs(3)] by blast
    from rs free show "\<exists>rs. r_rs (rollbacks s ! i) = Some rs \<and> rs < length (attempts s) \<and>
               cancelLockGrabCtx_done (heap s ! rs) \<and>
               (wg (heap s ! rs) = 0) = (6 < rank (a_pc (attempts s ! rs))) \<and>
               (wg (heap s ! rs) \<noteq> 0 \<longrightarrow> Rollback_step i s = None) \<and>
               (wg (heap s ! rs) = 0 \<longrightarrow>
                  Rollback_step i s =
                    Some (s\<lparr>rollbacks := (rollbacks s)[i := (rollbacks s ! i)\<lparr>r_pc := RbAtLastError\<rparr>]\<rparr>) \<and>
                  exec x [RollbackStep i, RollbackStep i] s =
                    Some (s\<lparr>rollbacks := (rollbacks s)[i := (rollbacks s ! i)
                            \<lparr>r_result := a_err (attempts s ! rs), r_pc := RbReturned\<rparr>]\<rparr>)) \<and>
               (a_pc (attempts s ! rs) \<noteq> AtReturned \<longrightarrow>
                  (\<forall>ob. shutdownCh_closed ob = shutdownCh s \<longrightarrow> attempt_step x rs ob s \<noteq> None))"
      by (intro exI [of _ rs] conjI)
  qed
  have last: "r_pc (rollbacks s ! i) = RbAtLastError \<longrightarrow>
            (\<exists>rs. r_rs (rollbacks s ! i) = Some rs \<and> rs < length (attempts s) \<and>
               lastError (heap s ! rs) = a_err (attempts s ! rs) \<and>
               Rollback_step i s =
                 Some (s\<lparr>rollbacks := (rollbacks s)[i := (rollbacks s ! i)
                         \<lparr>r_result := lastError (heap s ! rs), r_pc := RbReturned\<rparr>]\<rparr>))"
    using Rollback_step_lastError [OF inv assms(2)] by blast
  from start returned cancel wait last show ?thesis by (intro conjI)
qed

theorem Rollback_joins_and_returns_attempt_error_witness:
  "exec sample_externals two_callers_returned NewRollbackManager \<noteq> None \<and>
   map (\<lambda>c. (r_pc c, r_rs c, r_result c))
     (rollbacks (the (exec sample_externals two_callers_returned NewRollbackManager))) =
     [(RbReturned, Some 0, Some (NewError ''failed'')), (RbReturned, Some 0, Some (NewError ''failed''))] \<and>
   map lastError (heap (the (exec sample_externals two_callers_returned NewRollbackManager))) =
     [Some (NewError ''failed'')] \<and>
   map a_err (attempts (the (exec sample_externals two_callers_returned NewRollbackManager))) =
     [Some (NewError ''failed'')] \<and>
   exec sample_externals sweep_attempt_cancelled NewRollbackManager \<noteq> None \<and>
   map (\<lambda>t. (a_grabStatelock t, a_pc t))
     (attempts (the (exec sample_externals sweep_attempt_joined NewRollbackManager))) =
     [(True, AtLockOrStop)] \<and>
   attempt_step sample_externals 0 stopped_route_failed
     (the (exec sample_externals sweep_attempt_joined NewRollbackManager)) = None \<and>
   map (\<lambda>c. (r_pc c, r_rs c))
     (rollbacks (the (exec sample_externals sweep_attempt_cancelled NewRollbackManager))) =
     [(RbAtWait, Some 0)] \<and>
   Rollback_step 0 (the (exec sample_externals sweep_attempt_cancelled NewRollbackManager)) = None \<and>
   attempt_step sample_externals 0 stopped_route_failed
     (the (exec sample_externals sweep_attempt_cancelled NewRollbackManager)) \<noteq> None \<and>
   map_option (map (\<lambda>c. (r_pc c, r_rs c, r_result c)) \<circ> rollbacks)
     (exec sample_externals sweep_attempt_returned NewRollbackManager) =
     Some [(RbReturned, Some 0, Some (NewError ''failed''))]"
proof -
  let ?s = "the (exec sample_externals two_callers_returned NewRollbackManager)"
  have ne: "exec sample_externals two_callers_returned NewRollbackManager \<noteq> None"
    by (simp add: sample_defs)
  then have e: "exec sample_externals two_callers_returned NewRollbackManager = Some ?s"
    by simp
  have c: "map (\<lambda>c. (r_pc c, r_rs c, r_result c)) (rollbacks ?s) =
      [(RbReturned, Some 0, Some (NewError ''failed'')), (RbReturned, Some 0, Some (NewError ''failed''))]"
    by (simp add: sample_defs)
  have a: "map a_err (attempts ?s) = [Some (NewError ''failed'')]"
    by (simp add: sample_defs)
  have l: "length (heap ?s) = 1" by (simp add: sample_defs)
  have i: "0 < length (rollbacks ?s)" "FromContext_err (r_ctx (rollbacks ?s ! 0)) = None"
    "FromContext_ns (r_ctx (rollbacks ?s ! 0)) = Some \<lparr>ns_Path = ''ns1/''\<rparr>"
    "r_pc (rollbacks ?s ! 0) = RbReturned" "r_rs (rollbacks ?s ! 0) = Some 0"
    "r_result (rollbacks ?s ! 0) = Some (NewError ''failed'')"
    by (simp_all add: sample_defs)
  from Rollback_joins_and_returns_attempt_error [OF e i(1,2,3)] i(4,5,6)
  have "lastError (heap ?s ! 0) = Some (NewError ''failed'')" by auto
  with l have h: "map lastError (heap ?s) = [Some (NewError ''failed'')]"
    by (cases "heap ?s") simp_all
  let ?j = "the (exec sample_externals sweep_attempt_joined NewRollbackManager)"
  let ?w = "the (exec sample_externals sweep_attempt_cancelled NewRollbackManager)"
  have nw: "exec sample_externals sweep_attempt_cancelled NewRollbackManager \<noteq> None"
    by (simp add: sample_defs3)
  then have ew: "exec sample_externals sweep_attempt_cancelled NewRollbackManager = Some ?w"
    by simp
  have j: "map (\<lambda>t. (a_grabStatelock t, a_pc t)) (attempts ?j) = [(True, AtLockOrStop)]"
    "attempt_step sample_externals 0 stopped_route_failed ?j = None"
    by (simp_all add: sample_defs3)
  have w: "0 < length (rollbacks ?w)" "FromContext_err (r_ctx (rollbacks ?w ! 0)) = None"
    "FromContext_ns (r_ctx (rollbacks ?w ! 0)) = Some \<lparr>ns_Path = ''ns1/''\<rparr>"
    "r_pc (rollbacks ?w ! 0) = RbAtWait" "r_rs (rollbacks ?w ! 0) = Some 0"
    "wg (heap ?w ! 0) \<noteq> 0" "a_pc (attempts ?w ! 0) \<noteq> AtReturned"
    "shutdownCh_closed stopped_route_failed = shutdownCh ?w"
    by (simp_all add: sample_defs3)
  have cw: "map (\<lambda>c. (r_pc c, r_rs c)) (rollbacks ?w) = [(RbAtWait, Some 0)]"
    by (simp add: sample_defs3)
  from Rollback_joins_and_returns_attempt_error [OF ew w(1,2,3)] w(4,5,6,7,8)
  have blocked: "Rollback_step 0 ?w = None"
    and free: "attempt_step sample_externals 0 stopped_route_failed ?w \<noteq> None"
    by auto
  have r: "map_option (map (\<lambda>c. (r_pc c, r_rs c, r_result c)) \<circ> rollbacks)
     (exec sample_externals sweep_attempt_returned NewRollbackManager) =
     Some [(RbReturned, Some 0, Some (NewError ''failed''))]"
    by (simp add: sample_defs3)
  from ne c h a nw j cw blocked free r show ?thesis by (intro conjI)
qed

text \<open>
  C6. On every termination of an attempt the deferred function records the terminal error,
  then releases the completion signal, then leaves \<open>inflightAll\<close>, then removes the entry
  from the registry: these are the last four effects of every execution of
  \<open>attemptRollback\<close>, in this order. In every state that an execution of the manager
  reaches: if the completion signal of an attempt has been released, its terminal error
  has been recorded; if its entry is no longer in the registry, its completion signal has
  been released; and a joiner that has passed \<open>rs.Wait()\<close> finds the terminal error in
  \<open>lastError\<close>.
\<close>

theorem attempt_records_then_signals_then_removes:
  assumes "exec x as NewRollbackManager = Some s" and "i < length (attempts s)"
  shows "filter deferred (snd (attemptRollback x ob ctx fullPath rs g)) =
           [SetLastError (a_err (fst (attemptRollback x ob ctx fullPath rs g))),
            RsDone, InflightAllDone, InflightDelete fullPath] \<and>
         (wg (heap s ! i) = 0 \<longrightarrow>
            6 < rank (a_pc (attempts s ! i)) \<and> lastError (heap s ! i) = a_err (attempts s ! i)) \<and>
         (inflight s (a_fullPath (attempts s ! i)) \<noteq> Some i \<longrightarrow>
            a_pc (attempts s ! i) = AtReturned \<and> wg (heap s ! i) = 0) \<and>
         (\<forall>j < length (rollbacks s).
            r_rs (rollbacks s ! j) = Some i \<longrightarrow>
            r_pc (rollbacks s ! j) = RbAtLastError \<or> r_pc (rollbacks s ! j) = RbReturned \<longrightarrow>
            wg (heap s ! i) = 0 \<and> lastError (heap s ! i) = a_err (attempts s ! i))"
proof -
  from reachable_invariant [OF assms(1)]
  have rb: "inv_rollbacks s" and wgi: "inv_wg s" and reg: "inv_registry s"
    by (simp_all add: invariant_def inv_core_def)
  from wgi assms(2)
  have w: "wg (heap s ! i) = (if rank (a_pc (attempts s ! i)) \<le> 6 then 1 else 0)"
    and l: "5 < rank (a_pc (attempts s ! i)) \<longrightarrow> lastError (heap s ! i) = a_err (attempts s ! i)"
    by (simp_all add: inv_wg_def)
  have signal: "wg (heap s ! i) = 0 \<longrightarrow>
      6 < rank (a_pc (attempts s ! i)) \<and> lastError (heap s ! i) = a_err (attempts s ! i)"
    using w l by (auto split: if_splits)
  have removed: "inflight s (a_fullPath (attempts s ! i)) \<noteq> Some i \<longrightarrow>
      a_pc (attempts s ! i) = AtReturned \<and> wg (heap s ! i) = 0"
  proof
    assume "inflight s (a_fullPath (attempts s ! i)) \<noteq> Some i"
    with registry_live [OF reg assms(2)] have "a_pc (attempts s ! i) = AtReturned" by blast
    with w show "a_pc (attempts s ! i) = AtReturned \<and> wg (heap s ! i) = 0" by simp
  qed
  have joiners: "\<forall>j < length (rollbacks s).
      r_rs (rollbacks s ! j) = Some i \<longrightarrow>
      r_pc (rollbacks s ! j) = RbAtLastError \<or> r_pc (rollbacks s ! j) = RbReturned \<longrightarrow>
      wg (heap s ! i) = 0 \<and> lastError (heap s ! i) = a_err (attempts s ! i)"
  proof (intro allI impI)
    fix j assume "j < length (rollbacks s)" and j: "r_rs (rollbacks s ! j) = Some i"
      "r_pc (rollbacks s ! j) = RbAtLastError \<or> r_pc (rollbacks s ! j) = RbReturned"
    with rb have "call_ok s (rollbacks s ! j)" by (simp add: inv_rollbacks_def)
    with j have "6 < rank (a_pc (attempts s ! i))" by (auto simp: call_ok_def)
    with w l show "wg (heap s ! i) = 0 \<and> lastError (heap s ! i) = a_err (attempts s ! i)"
      by simp
  qed
  from attemptRollback_deferred [of x ob ctx fullPath rs g] signal removed joiners
  show ?thesis by blast
qed

theorem attempt_records_then_signals_then_removes_witness:
  "exec sample_externals two_callers_returned NewRollbackManager \<noteq> None \<and>
   inflight (the (exec sample_externals two_callers_returned NewRollbackManager)) ''ns1/secret/'' = None \<and>
   map wg (heap (the (exec sample_externals two_callers_returned NewRollbackManager))) = [0] \<and>
   map a_pc (attempts (the (exec sample_externals two_callers_returned NewRollbackManager))) = [AtReturned] \<and>
   lastError (heap (the (exec sample_externals two_callers_returned NewRollbackManager)) ! 0) =
     a_err (attempts (the (exec sample_externals two_callers_returned NewRollbackManager)) ! 0)"
proof -
  let ?s = "the (exec sample_externals two_callers_returned NewRollbackManager)"
  have ne: "exec sample_externals two_callers_returned NewRollbackManager \<noteq> None"
    by (simp add: sample_defs)
  then have e: "exec sample_externals two_callers_returned NewRollbackManager = Some ?s"
    by simp
  have f: "0 < length (attempts ?s)" "inflight ?s ''ns1/secret/'' = None"
    "map wg (heap ?s) = [0]" "map a_pc (attempts ?s) = [AtReturned]" "wg (heap ?s ! 0) = 0"
    by (simp_all add: sample_defs)
  from attempt_records_then_signals_then_removes [OF e f(1)] f(5)
  have "lastError (heap ?s ! 0) = a_err (attempts ?s ! 0)" by blast
  with ne f show ?thesis by blast
qed

text \<open>
  C8. For a mount entry that the sweep visits, the target path is the entry's path, with
  \<open>credentialRoutePrefix\<close> in front exactly when the entry's table is
  \<open>credentialTableType\<close>. When \<open>MatchingBackend\<close> returns nil, the entry is skipped and nothing
  changes. Otherwise the sweep calls \<open>startOrLookupRollback\<close> for the namespace's path
  followed by the target path, with \<open>grabStatelock\<close> true: it joins the attempt registered
  for that path, or starts one. The step is possible in every state, leaves the attempts
  that exist as they are, and goes on to the next entry: the sweep does not wait.
\<close>

theorem triggerRollbacks_entry_starts_or_joins:
  assumes "exec x as NewRollbackManager = Some s" and "run_loop s = RunInTrigger (e # es)"
    and "path = (if me_Table e = credentialTableType x
                 then credentialRoutePrefix x @ me_Path e else me_Path e)"
    and "fullPath = ns_Path (me_namespace e) @ path"
  shows "\<exists>s'. step x RunTriggerNext s = Some s' \<and> run_loop s' = RunInTrigger es \<and>
           take (length (attempts s)) (attempts s') = attempts s \<and>
           (if \<not> MatchingBackend x (me_namespace e) path then s' = s\<lparr>run_loop := RunInTrigger es\<rparr>
            else s' = (snd (startOrLookupRollback (ContextWithNamespace (me_namespace e)) fullPath True s))
                        \<lparr>run_loop := RunInTrigger es\<rparr> \<and>
                 (case inflight s fullPath of
                    Some rsInflight \<Rightarrow>
                      attempts s' = attempts s \<and> inflight s' = inflight s \<and>
                      rsInflight < length (attempts s) \<and>
                      a_fullPath (attempts s ! rsInflight) = fullPath \<and>
                      a_pc (attempts s ! rsInflight) \<noteq> AtReturned
                  | None \<Rightarrow>
                      attempts s' = attempts s @
                        [spawn (ContextWithNamespace (me_namespace e)) fullPath (length (heap s)) True] \<and>
                      inflight s' = (inflight s)(fullPath \<mapsto> length (heap s))))"
proof -
  from reachable_invariant [OF assms(1)] have reg: "inv_registry s"
    by (simp add: invariant_def inv_core_def)
  let ?ctx = "ContextWithNamespace (me_namespace e)"
  let ?s1 = "snd (startOrLookupRollback ?ctx fullPath True s)"
  have entry: "triggerRollbacks_entry x e s =
      (if \<not> MatchingBackend x (me_namespace e) path then s else ?s1)"
    by (simp add: triggerRollbacks_entry_def Let_def assms(3,4))
  have st: "step x RunTriggerNext s = Some ((triggerRollbacks_entry x e s)\<lparr>run_loop := RunInTrigger es\<rparr>)"
    using assms(2) by simp
  have joined: "\<And>rsInflight. inflight s fullPath = Some rsInflight \<Longrightarrow>
      ?s1 = s \<and> rsInflight < length (attempts s) \<and>
      a_fullPath (attempts s ! rsInflight) = fullPath \<and> a_pc (attempts s ! rsInflight) \<noteq> AtReturned"
    using registry_entry [OF reg] by (simp add: startOrLookupRollback_def)
  have started: "inflight s fullPath = None \<Longrightarrow>
      attempts ?s1 = attempts s @ [spawn ?ctx fullPath (length (heap s)) True] \<and>
      inflight ?s1 = (inflight s)(fullPath \<mapsto> length (heap s))"
    by (simp add: startOrLookupRollback_def Let_def)
  show ?thesis
  proof (cases "MatchingBackend x (me_namespace e) path")
    case False
    with st entry show ?thesis by simp
  next
    case True
    show ?thesis
    proof (cases "inflight s fullPath")
      case None
      with started True st entry show ?thesis by simp
    next
      case (Some rsInflight)
      with joined [OF Some] True st entry show ?thesis by simp
    qed
  qed
qed

theorem triggerRollbacks_entry_starts_or_joins_witness:
  "map_option run_loop (exec sample_externals sweep_at_entry NewRollbackManager) =
     Some (RunInTrigger [sample_mount]) \<and>
   map_option attempts (step sample_externals RunTriggerNext
       (the (exec sample_externals sweep_at_entry NewRollbackManager))) =
     Some [spawn (ContextWithNamespace \<lparr>ns_Path = ''ns1/''\<rparr>) ''ns1/auth/token/'' 0 True]"
proof -
  let ?s = "the (exec sample_externals sweep_at_entry NewRollbackManager)"
  have ne: "exec sample_externals sweep_at_entry NewRollbackManager \<noteq> None"
    by (simp add: sample_defs2 sweep_at_entry_def)
  then have e: "exec sample_externals sweep_at_entry NewRollbackManager = Some ?s"
    by simp
  have f: "run_loop ?s = RunInTrigger [sample_mount]" "inflight ?s ''ns1/auth/token/'' = None"
    "attempts ?s = []" "heap ?s = []"
    by (simp_all add: sample_defs2 sweep_at_entry_def)
  have p: "''auth/token/'' = (if me_Table sample_mount = credentialTableType sample_externals
        then credentialRoutePrefix sample_externals @ me_Path sample_mount else me_Path sample_mount)"
    "''ns1/auth/token/'' = ns_Path (me_namespace sample_mount) @ ''auth/token/''"
    "MatchingBackend sample_externals (me_namespace sample_mount) ''auth/token/''"
    "me_namespace sample_mount = \<lparr>ns_Path = ''ns1/''\<rparr>"
    by (simp_all add: sample_defs2)
  from triggerRollbacks_entry_starts_or_joins [OF e f(1) p(1) p(2)] p(3)
  obtain s' where "step sample_externals RunTriggerNext ?s = Some s'"
    and "attempts s' = attempts ?s @
      [spawn (ContextWithNamespace (me_namespace sample_mount)) ''ns1/auth/token/'' (length (heap ?s)) True]"
    by (auto simp: f(2))
  then have "map_option attempts (step sample_externals RunTriggerNext ?s) =
     Some [spawn (ContextWithNamespace \<lparr>ns_Path = ''ns1/''\<rparr>) ''ns1/auth/token/'' 0 True]"
    by (simp add: f(3,4) p(4))
  moreover have "map_option run_loop (exec sample_externals sweep_at_entry NewRollbackManager) =
     Some (RunInTrigger [sample_mount])"
    by (simp add: sample_defs2 sweep_at_entry_def)
  ultimately show ?thesis by blast
qed

text \<open>
  C10. If \<open>Rollback(ctx, path)\<close> is called with a context for which \<open>FromContext\<close> returns
  an error, the call returns that error in its first step, and nothing but the record of
  the call changes: the registry is as before, no attempt is created or joined, and no lock
  grab is cancelled.
\<close>

theorem Rollback_without_namespace:
  assumes "FromContext_err ctx = Some e"
  shows "exec x [CallRollback ctx path, RollbackStep (length (rollbacks s))] s =
     Some (s\<lparr>rollbacks := rollbacks s @
        [\<lparr>r_ctx = ctx, r_path = path, r_pc = RbReturned, r_rs = None, r_result = Some e\<rparr>]\<rparr>)"
  using assms by (simp add: Rollback_step_def)

theorem Rollback_without_namespace_witness:
  "exec sample_externals [CallRollback no_namespace_ctx ''secret/'', RollbackStep 0] NewRollbackManager =
     Some (NewRollbackManager\<lparr>rollbacks :=
        [\<lparr>r_ctx = no_namespace_ctx, r_path = ''secret/'', r_pc = RbReturned, r_rs = None,
          r_result = Some ErrNoNamespace\<rparr>]\<rparr>)"
proof -
  have "FromContext_err no_namespace_ctx = Some ErrNoNamespace"
    by (simp add: no_namespace_ctx_def)
  from Rollback_without_namespace [OF this, of sample_externals "''secret/''" NewRollbackManager]
  show ?thesis by (simp add: NewRollbackManager_def)
qed

end
